theory Spec2Isabelle
  imports Complex_Main "HOL-Library.Stream" "HOL-Library.Multiset"
begin

section \<open>Board model\<close>

text \<open>
  \<^verbatim>\<open>type Board = (number | null)[][]\<close>: a list of rows, each a list of cells; \<open>None\<close> is
  \<^verbatim>\<open>null\<close>. The program only ever builds and passes 9x9 boards, which \<open>wfBoard\<close> states.
\<close>

type_synonym board = "int option list list"

definition wfBoard :: "board \<Rightarrow> bool" where
  "wfBoard board = (length board = 9 \<and> (\<forall>row \<in> set board. length row = 9))"

text \<open>
  The assignment \<^verbatim>\<open>board[row][col] = v\<close>, on a board or on any other array of arrays
  (the counters \<^verbatim>\<open>boxRemovals\<close> of the generator).
\<close>

definition setCell :: "'a list list \<Rightarrow> nat \<Rightarrow> nat \<Rightarrow> 'a \<Rightarrow> 'a list list" where
  "setCell board row col v = board[row := (board ! row)[col := v]]"

text \<open>
  The test \<^verbatim>\<open>board[row][col] === null\<close> of the search loops. A column beyond the end of a
  row reads \<^verbatim>\<open>undefined\<close> in the source, which is not \<^verbatim>\<open>null\<close>; the index guard keeps
  the search total on every list of lists (on a 9x9 board it is always true).
\<close>

definition cellIsNull :: "board \<Rightarrow> nat \<Rightarrow> nat \<Rightarrow> bool" where
  "cellIsNull board row col =
     (row < length board \<and> col < length (board ! row) \<and> board ! row ! col = None)"

section \<open>sudokuValidator.ts\<close>

text \<open>Each \<^verbatim>\<open>for\<close> loop that returns false at the first hit is a conjunction over its range.\<close>

definition isValidMove :: "board \<Rightarrow> nat \<Rightarrow> nat \<Rightarrow> int \<Rightarrow> bool" where
  "isValidMove board row col num =
     ((\<forall>x \<in> set [0..<9]. \<not> (x \<noteq> col \<and> board ! row ! x = Some num)) \<and>
      (\<forall>x \<in> set [0..<9]. \<not> (x \<noteq> row \<and> board ! x ! col = Some num)) \<and>
      (let boxStartRow = row - row mod 3; boxStartCol = col - col mod 3 in
         \<forall>i \<in> set [0..<3]. \<forall>j \<in> set [0..<3].
           (let currentRow = boxStartRow + i; currentCol = boxStartCol + j in
              (currentRow = row \<and> currentCol = col) \<or>
              board ! currentRow ! currentCol \<noteq> Some num)))"

definition findConflicts :: "board \<Rightarrow> nat \<Rightarrow> nat \<Rightarrow> (nat \<times> nat) list" where
  "findConflicts board row col =
     (case board ! row ! col of
        None \<Rightarrow> []
      | Some v \<Rightarrow>
          [(row, x). x \<leftarrow> [0..<9], x \<noteq> col \<and> board ! row ! x = Some v] @
          [(x, col). x \<leftarrow> [0..<9], x \<noteq> row \<and> board ! x ! col = Some v] @
          (let boxStartRow = row - row mod 3; boxStartCol = col - col mod 3 in
             [(boxStartRow + i, boxStartCol + j). i \<leftarrow> [0..<3], j \<leftarrow> [0..<3],
                \<not> (boxStartRow + i = row \<and> boxStartCol + j = col) \<and>
                board ! (boxStartRow + i) ! (boxStartCol + j) = Some v]))"

definition isBoardValid :: "board \<Rightarrow> bool" where
  "isBoardValid board =
     (\<forall>row \<in> set [0..<9]. \<forall>col \<in> set [0..<9].
        board ! row ! col \<noteq> None \<longrightarrow> findConflicts board row col = [])"

definition isBoardSolved :: "board \<Rightarrow> bool" where
  "isBoardSolved board =
     ((\<forall>row \<in> set [0..<9]. \<forall>col \<in> set [0..<9]. board ! row ! col \<noteq> None) \<and>
      isBoardValid board)"

section \<open>sudokuSolver.ts\<close>

text \<open>The two nested scanning loops: the first empty cell in row-major order.\<close>

definition firstEmpty :: "board \<Rightarrow> (nat \<times> nat) option" where
  "firstEmpty board =
     find (\<lambda>(row, col). cellIsNull board row col) (List.product [0..<9] [0..<9])"

text \<open>
  \<open>solveSudoku\<close> returns the boolean together with the board as the call leaves it (the
  source mutates its argument). \<open>solveTry\<close> is the loop \<^verbatim>\<open>for (num = 1; num <= 9; num++)\<close>
  at the empty cell found, over the candidates still to try.
\<close>

function solveSudoku :: "board \<Rightarrow> bool \<times> board"
  and solveTry :: "board \<Rightarrow> nat \<Rightarrow> nat \<Rightarrow> int list \<Rightarrow> bool \<times> board" where
  "solveSudoku board =
     (case firstEmpty board of
        None \<Rightarrow> (True, board)
      | Some (row, col) \<Rightarrow> solveTry board row col [1, 2, 3, 4, 5, 6, 7, 8, 9])"
| "solveTry board row col [] = (False, board)"
| "solveTry board row col (num # nums) =
     (if isValidMove board row col num then
        (case solveSudoku (setCell board row col (Some num)) of
           (True, board') \<Rightarrow> (True, board')
         | (False, board') \<Rightarrow> solveTry (setCell board' row col None) row col nums)
      else solveTry board row col nums)"
  by pat_completeness auto



text \<open>
  Termination of the search: every placement fills an empty cell, and a failed recursive
  call hands the board back as it received it, so the number of empty cells decreases
  along the recursion.
\<close>

definition emptyCells :: "board \<Rightarrow> (nat \<times> nat) set" where
  "emptyCells board = {(row, col). cellIsNull board row col}"

lemma finite_emptyCells: "finite (emptyCells board)"
proof -
  have "emptyCells board \<subseteq> (SIGMA row : {..<length board}. {..<length (board ! row)})"
    by (auto simp: emptyCells_def cellIsNull_def)
  then show ?thesis by (rule finite_subset) auto
qed

lemma cellIsNull_setCell:
  "cellIsNull (setCell board row col v) r c =
     (if r = row \<and> c = col then r < length board \<and> c < length (board ! r) \<and> v = None
      else cellIsNull board r c)"
  by (cases "r = row"; cases "row < length board")
     (auto simp: cellIsNull_def setCell_def nth_list_update)

lemma emptyCells_setCell_Some:
  "emptyCells (setCell board row col (Some v)) = emptyCells board - {(row, col)}"
  by (auto simp: emptyCells_def cellIsNull_setCell)

lemma emptyCells_setCell_None:
  "emptyCells (setCell board row col None) - {(row, col)} = emptyCells board - {(row, col)}"
  by (auto simp: emptyCells_def cellIsNull_setCell)

lemma setCell_setCell: "setCell (setCell board row col v) row col w = setCell board row col w"
  by (cases "row < length board") (simp_all add: setCell_def list_update_beyond)

lemma setCell_same: "board ! row ! col = v \<Longrightarrow> setCell board row col v = board"
  by (auto simp: setCell_def)

lemma firstEmpty_Some:
  "firstEmpty board = Some (row, col) \<Longrightarrow> cellIsNull board row col \<and> row < 9 \<and> col < 9"
proof -
  assume "firstEmpty board = Some (row, col)"
  then obtain i where i: "i < length (List.product [0..<9] [0..<9::nat])"
    "List.product [0..<9] [0..<9] ! i = (row, col)" and n: "cellIsNull board row col"
    unfolding firstEmpty_def find_Some_iff by auto
  from nth_mem[OF i(1)] i(2) have "(row, col) \<in> set (List.product [0..<9] [0..<9])"
    by simp
  with n show ?thesis by simp
qed

lemma solve_fail_dom:
  "solveSudoku_solveTry_dom (Inl board) \<Longrightarrow>
     solveSudoku board = (False, board') \<Longrightarrow> board' = board"
  "solveSudoku_solveTry_dom (Inr (board, row, col, nums)) \<Longrightarrow>
     solveTry board row col nums = (False, board') \<Longrightarrow>
     board' = board \<or> board' = setCell board row col None"
proof (induct board and board row col nums arbitrary: board' and board'
    rule: solveSudoku_solveTry.pinduct)
  case (1 board)
  show ?case
  proof (cases "firstEmpty board")
    case None
    with 1 show ?thesis by (simp add: solveSudoku.psimps)
  next
    case (Some p)
    obtain row col where p: "p = (row, col)" by (cases p)
    from firstEmpty_Some[OF Some[unfolded p]] have "setCell board row col None = board"
      by (simp add: setCell_same cellIsNull_def)
    moreover from 1(1,3) Some p have "solveTry board row col [1, 2, 3, 4, 5, 6, 7, 8, 9] = (False, board')"
      by (simp add: solveSudoku.psimps)
    ultimately show ?thesis using 1(2)[OF Some p[symmetric]] by auto
  qed
next
  case (2 board row col)
  then show ?case by (simp add: solveTry.psimps)
next
  case (3 board row col num nums)
  show ?case
  proof (cases "isValidMove board row col num")
    case False
    with 3 show ?thesis by (simp add: solveTry.psimps)
  next
    case True
    obtain ok y where r: "solveSudoku (setCell board row col (Some num)) = (ok, y)"
      by (cases "solveSudoku (setCell board row col (Some num))")
    show ?thesis
    proof (cases ok)
      case True
      with 3(1,5) \<open>isValidMove board row col num\<close> r show ?thesis
        by (simp add: solveTry.psimps)
    next
      case False
      with 3(2)[OF True] r have y: "y = setCell board row col (Some num)" by simp
      from 3(1,5) True r False
      have "solveTry (setCell y row col None) row col nums = (False, board')"
        by (simp add: solveTry.psimps)
      from 3(3)[OF True r[symmetric] _ this] False show ?thesis
        by (simp add: y setCell_setCell)
    qed
  qed
qed

termination solveSudoku
proof (relation "inv_image (less_than <*lex*> less_than <*lex*> less_than)
     (\<lambda>x. case x of
        Inl board \<Rightarrow> (card (emptyCells board), 1::nat, 0::nat)
      | Inr (board, row, col, nums) \<Rightarrow>
          (Suc (card (emptyCells board - {(row, col)})), 0, length nums))", goal_cases)
  case 1
  show ?case by (intro wf_inv_image wf_lex_prod wf_less_than)
next
  case (2 board p row col)
  then have "firstEmpty board = Some (row, col)" by simp
  then have "(row, col) \<in> emptyCells board"
    using firstEmpty_Some[of board row col] by (simp add: emptyCells_def)
  then have "Suc (card (emptyCells board - {(row, col)})) = card (emptyCells board)"
    by (rule card_Suc_Diff1[OF finite_emptyCells])
  then show ?case by simp
next
  case (3 board row col num nums)
  then show ?case by (simp add: emptyCells_setCell_Some)
next
  case (4 board row col num nums ok y)
  then have "y = setCell board row col (Some num)"
    using solve_fail_dom(1)[of "setCell board row col (Some num)" y] by simp
  then show ?case
    by (simp add: setCell_setCell emptyCells_setCell_None)
next
  case 5
  then show ?case by simp
qed


declare solveSudoku.simps [simp del] solveTry.simps [simp del]

subsection \<open>The board after a call\<close>

lemma nth_setCell:
  "setCell board row col v ! r ! c =
     (if r = row \<and> c = col \<and> row < length board \<and> col < length (board ! row) then v
      else board ! r ! c)"
  by (cases "r = row"; cases "row < length board")
     (auto simp: setCell_def nth_list_update list_update_beyond)

lemma solve_fail:
  "solveSudoku board = (False, board') \<Longrightarrow> board' = board"
  "solveTry board row col nums = (False, board') \<Longrightarrow>
     board' = board \<or> board' = setCell board row col None"
proof (induct board and board row col nums arbitrary: board' and board'
    rule: solveSudoku_solveTry.induct)
  case (1 board)
  show ?case
  proof (cases "firstEmpty board")
    case None
    with 1 show ?thesis by (simp add: solveSudoku.simps)
  next
    case (Some p)
    obtain row col where p: "p = (row, col)" by (cases p)
    from firstEmpty_Some[OF Some[unfolded p]] have "setCell board row col None = board"
      by (simp add: setCell_same cellIsNull_def)
    moreover from 1(2) Some p
    have "solveTry board row col [1, 2, 3, 4, 5, 6, 7, 8, 9] = (False, board')"
      by (simp add: solveSudoku.simps)
    ultimately show ?thesis using 1(1)[OF Some p[symmetric]] by auto
  qed
next
  case (2 board row col)
  then show ?case by (simp add: solveTry.simps)
next
  case (3 board row col num nums)
  show ?case
  proof (cases "isValidMove board row col num")
    case False
    with 3 show ?thesis by (simp add: solveTry.simps)
  next
    case True
    obtain ok y where r: "solveSudoku (setCell board row col (Some num)) = (ok, y)"
      by (cases "solveSudoku (setCell board row col (Some num))")
    show ?thesis
    proof (cases ok)
      case True
      with 3(4) \<open>isValidMove board row col num\<close> r show ?thesis
        by (simp add: solveTry.simps)
    next
      case False
      with 3(1)[OF True] r have y: "y = setCell board row col (Some num)" by simp
      from 3(4) True r False
      have "solveTry (setCell y row col None) row col nums = (False, board')"
        by (simp add: solveTry.simps)
      from 3(2)[OF True r[symmetric] _ this] False show ?thesis
        by (simp add: y setCell_setCell)
    qed
  qed
qed

lemma solve_frame:
  "solveSudoku board = (ok, board') \<Longrightarrow> board ! r ! c \<noteq> None \<Longrightarrow>
     board' ! r ! c = board ! r ! c"
  "cellIsNull board row col \<Longrightarrow> solveTry board row col nums = (ok, board') \<Longrightarrow>
     board ! r ! c \<noteq> None \<Longrightarrow> board' ! r ! c = board ! r ! c"
proof (induct board and board row col nums arbitrary: ok board' and ok board'
    rule: solveSudoku_solveTry.induct)
  case (1 board)
  show ?case
  proof (cases "firstEmpty board")
    case None
    with 1 show ?thesis by (simp add: solveSudoku.simps)
  next
    case (Some p)
    obtain row col where p: "p = (row, col)" by (cases p)
    from firstEmpty_Some[OF Some[unfolded p]] have "cellIsNull board row col" by simp
    moreover from 1(2) Some p
    have "solveTry board row col [1, 2, 3, 4, 5, 6, 7, 8, 9] = (ok, board')"
      by (simp add: solveSudoku.simps)
    ultimately show ?thesis using 1(1)[OF Some p[symmetric]] 1(3) by blast
  qed
next
  case (2 board row col)
  then show ?case by (simp add: solveTry.simps)
next
  case (3 board row col num nums)
  note empty = \<open>cellIsNull board row col\<close>
  show ?case
  proof (cases "isValidMove board row col num")
    case False
    with 3 show ?thesis by (simp add: solveTry.simps)
  next
    case True
    obtain ok1 y where r: "solveSudoku (setCell board row col (Some num)) = (ok1, y)"
      by (cases "solveSudoku (setCell board row col (Some num))")
    show ?thesis
    proof (cases ok1)
      case True
      with 3(5) \<open>isValidMove board row col num\<close> r have "board' = y"
        by (simp add: solveTry.simps)
      moreover from empty 3(6)
      have "setCell board row col (Some num) ! r ! c = board ! r ! c"
        by (auto simp: nth_setCell cellIsNull_def)
      ultimately show ?thesis using 3(1)[OF \<open>isValidMove board row col num\<close> r] 3(6)
        by simp
    next
      case False
      with r have y: "y = setCell board row col (Some num)" by (simp add: solve_fail(1))
      from empty have undone: "setCell y row col None = board"
        by (simp add: y setCell_setCell setCell_same cellIsNull_def)
      from 3(5) True r False
      have "solveTry (setCell y row col None) row col nums = (ok, board')"
        by (simp add: solveTry.simps)
      from 3(2)[OF True r[symmetric] _ _ this] False empty 3(6) show ?thesis
        by (simp add: undone)
    qed
  qed
qed

section \<open>What the validator decides\<close>

text \<open>
  Two cells see each other when they share a row, a column or a 3x3 box. The loops of
  \<open>isValidMove\<close> and \<open>findConflicts\<close> visit exactly the cells that see the given one.
\<close>

definition sameUnit :: "nat \<Rightarrow> nat \<Rightarrow> nat \<Rightarrow> nat \<Rightarrow> bool" where
  "sameUnit r c r' c' = (r = r' \<or> c = c' \<or> (r div 3 = r' div 3 \<and> c div 3 = c' div 3))"

lemma box_start_mod: "r div 3 = row div 3 \<Longrightarrow> r = row - row mod 3 + r mod (3::nat)"
  by (metis add.commute add_diff_cancel_left' div_mult_mod_eq mult.commute)

lemma box_start_div: "i < 3 \<Longrightarrow> (row - row mod 3 + i) div 3 = row div (3::nat)"
proof -
  assume "i < 3"
  have "row - row mod 3 = 3 * (row div 3)" by (simp add: minus_mod_eq_mult_div)
  with \<open>i < 3\<close> show ?thesis by simp
qed

lemma box_start_less: "row < 9 \<Longrightarrow> i < 3 \<Longrightarrow> row - row mod 3 + i < (9::nat)"
  by arith

lemma box_range:
  assumes "row < 9"
  shows "(\<forall>i \<in> set [0..<3]. P (row - row mod 3 + i)) \<longleftrightarrow>
         (\<forall>r<9. r div 3 = row div 3 \<longrightarrow> P r)"
proof
  assume l: "\<forall>i \<in> set [0..<3]. P (row - row mod 3 + i)"
  show "\<forall>r<9. r div 3 = row div 3 \<longrightarrow> P r"
  proof (intro allI impI)
    fix r :: nat assume "r < 9" "r div 3 = row div 3"
    then have "r = row - row mod 3 + r mod 3" by (intro box_start_mod)
    moreover have "r mod 3 \<in> set [0..<3]" by simp
    ultimately show "P r" using l by metis
  qed
next
  assume r: "\<forall>r<9. r div 3 = row div 3 \<longrightarrow> P r"
  show "\<forall>i \<in> set [0..<3]. P (row - row mod 3 + i)"
  proof
    fix i assume "i \<in> set [0..<3]"
    then have "i < 3" by simp
    have "row - row mod 3 + i < 9" by (rule box_start_less[OF assms \<open>i < 3\<close>])
    moreover have "(row - row mod 3 + i) div 3 = row div 3"
      by (rule box_start_div[OF \<open>i < 3\<close>])
    ultimately have "row - row mod 3 + i < 9" "(row - row mod 3 + i) div 3 = row div 3" .
    with r show "P (row - row mod 3 + i)" by blast
  qed
qed

lemma isValidMove_iff:
  assumes "row < 9" "col < 9"
  shows "isValidMove board row col num \<longleftrightarrow>
     (\<forall>r<9. \<forall>c<9. sameUnit row col r c \<and> (r, c) \<noteq> (row, col) \<longrightarrow>
        board ! r ! c \<noteq> Some num)"
proof -
  have inner: "(\<forall>j \<in> set [0..<3]. (r = row \<and> col - col mod 3 + j = col) \<or>
           board ! r ! (col - col mod 3 + j) \<noteq> Some num) \<longleftrightarrow>
        (\<forall>c<9. c div 3 = col div 3 \<longrightarrow> (r = row \<and> c = col) \<or> board ! r ! c \<noteq> Some num)"
    for r
    by (rule box_range[OF assms(2),
          of "\<lambda>c. (r = row \<and> c = col) \<or> board ! r ! c \<noteq> Some num"])
  have box: "(\<forall>i \<in> set [0..<3]. \<forall>j \<in> set [0..<3].
           (row - row mod 3 + i = row \<and> col - col mod 3 + j = col) \<or>
           board ! (row - row mod 3 + i) ! (col - col mod 3 + j) \<noteq> Some num) \<longleftrightarrow>
        (\<forall>r<9. r div 3 = row div 3 \<longrightarrow> (\<forall>c<9. c div 3 = col div 3 \<longrightarrow>
           (r = row \<and> c = col) \<or> board ! r ! c \<noteq> Some num))"
    unfolding inner
    by (rule box_range[OF assms(1),
          of "\<lambda>r. \<forall>c<9. c div 3 = col div 3 \<longrightarrow>
                 (r = row \<and> c = col) \<or> board ! r ! c \<noteq> Some num"])
  have rows: "(\<forall>x \<in> set [0..<9]. \<not> (x \<noteq> col \<and> board ! row ! x = Some num)) \<longleftrightarrow>
        (\<forall>c<9. c \<noteq> col \<longrightarrow> board ! row ! c \<noteq> Some num)"
    by auto
  have cols: "(\<forall>x \<in> set [0..<9]. \<not> (x \<noteq> row \<and> board ! x ! col = Some num)) \<longleftrightarrow>
        (\<forall>r<9. r \<noteq> row \<longrightarrow> board ! r ! col \<noteq> Some num)"
    by auto
  have "isValidMove board row col num \<longleftrightarrow>
     (\<forall>c<9. c \<noteq> col \<longrightarrow> board ! row ! c \<noteq> Some num) \<and>
     (\<forall>r<9. r \<noteq> row \<longrightarrow> board ! r ! col \<noteq> Some num) \<and>
     (\<forall>r<9. r div 3 = row div 3 \<longrightarrow> (\<forall>c<9. c div 3 = col div 3 \<longrightarrow>
           (r = row \<and> c = col) \<or> board ! r ! c \<noteq> Some num))"
    unfolding isValidMove_def Let_def box rows cols ..
  also have "\<dots> \<longleftrightarrow> (\<forall>r<9. \<forall>c<9. sameUnit row col r c \<and> (r, c) \<noteq> (row, col) \<longrightarrow>
        board ! r ! c \<noteq> Some num)"
    using assms unfolding sameUnit_def by (intro iffI; simp; metis)
  finally show ?thesis .
qed

text \<open>
  \<open>noClash\<close>: no two cells that see each other hold the same value. \<open>allFilled\<close>,
  \<open>digitsOnly\<close> and \<open>agreesOn\<close> say that no cell is empty, that every value is a digit
  1..9, and that a second board keeps every value of the first.
\<close>

definition noClash :: "board \<Rightarrow> bool" where
  "noClash board =
     (\<forall>r<9. \<forall>c<9. \<forall>r'<9. \<forall>c'<9.
        sameUnit r c r' c' \<and> (r', c') \<noteq> (r, c) \<and> board ! r ! c \<noteq> None \<longrightarrow>
        board ! r' ! c' \<noteq> board ! r ! c)"

definition allFilled :: "board \<Rightarrow> bool" where
  "allFilled board = (\<forall>r<9. \<forall>c<9. board ! r ! c \<noteq> None)"

definition digitsOnly :: "board \<Rightarrow> bool" where
  "digitsOnly board = (\<forall>r<9. \<forall>c<9. \<forall>d. board ! r ! c = Some d \<longrightarrow> 1 \<le> d \<and> d \<le> 9)"

definition agreesOn :: "board \<Rightarrow> board \<Rightarrow> bool" where
  "agreesOn board s = (\<forall>r<9. \<forall>c<9. board ! r ! c \<noteq> None \<longrightarrow> s ! r ! c = board ! r ! c)"

lemma comprehension_Nil_iff:
  "[f x. x \<leftarrow> xs, P x] = [] \<longleftrightarrow> (\<forall>x \<in> set xs. \<not> P x)"
  by (induct xs) auto

lemma comprehension2_Nil_iff:
  "[f i j. i \<leftarrow> xs, j \<leftarrow> ys, P i j] = [] \<longleftrightarrow> (\<forall>i \<in> set xs. \<forall>j \<in> set ys. \<not> P i j)"
  by (induct xs) (auto simp: comprehension_Nil_iff)

lemma findConflicts_Nil_iff:
  assumes "board ! row ! col = Some v"
  shows "findConflicts board row col = [] \<longleftrightarrow> isValidMove board row col v"
  unfolding findConflicts_def isValidMove_def Let_def assms option.case append_is_Nil_conv
    comprehension_Nil_iff comprehension2_Nil_iff
  by (simp only: de_Morgan_disj de_Morgan_conj not_not)

lemma noClashD:
  "noClash board \<Longrightarrow> r < 9 \<Longrightarrow> c < 9 \<Longrightarrow> r' < 9 \<Longrightarrow> c' < 9 \<Longrightarrow> sameUnit r c r' c' \<Longrightarrow>
     (r', c') \<noteq> (r, c) \<Longrightarrow> board ! r ! c \<noteq> None \<Longrightarrow> board ! r' ! c' \<noteq> board ! r ! c"
  unfolding noClash_def by blast

lemma isBoardValidD:
  assumes "isBoardValid board" "r < 9" "c < 9" "board ! r ! c = Some v"
  shows "isValidMove board r c v"
proof -
  from assms(2,3) have "r \<in> set [0..<9]" "c \<in> set [0..<9]"
    by (simp_all only: set_upt atLeastLessThan_iff le0 simp_thms)
  with assms(1) have "board ! r ! c \<noteq> None \<longrightarrow> findConflicts board r c = []"
    unfolding isBoardValid_def by blast
  with assms(4) show ?thesis by (simp only: findConflicts_Nil_iff) simp
qed

lemma isBoardValidI:
  assumes "\<And>r c v. r < 9 \<Longrightarrow> c < 9 \<Longrightarrow> board ! r ! c = Some v \<Longrightarrow> isValidMove board r c v"
  shows "isBoardValid board"
  unfolding isBoardValid_def
proof (intro ballI impI)
  fix row col assume rc: "row \<in> set [0..<9]" "col \<in> set [0..<9]"
    and "board ! row ! col \<noteq> None"
  then obtain v where v: "board ! row ! col = Some v" by blast
  from rc have "row < 9" "col < 9"
    by (simp_all only: set_upt atLeastLessThan_iff)
  from assms[OF this v] v show "findConflicts board row col = []"
    by (simp only: findConflicts_Nil_iff)
qed

lemma isBoardValid_iff: "isBoardValid board \<longleftrightarrow> noClash board"
proof
  assume valid: "isBoardValid board"
  show "noClash board"
    unfolding noClash_def
  proof (intro allI impI, elim conjE)
    fix r c r' c' :: nat
    assume b: "r < 9" "c < 9" "r' < 9" "c' < 9" and u: "sameUnit r c r' c'"
      "(r', c') \<noteq> (r, c)" and n: "board ! r ! c \<noteq> None"
    from n obtain v where v: "board ! r ! c = Some v" by blast
    from isBoardValidD[OF valid b(1,2) v] b(1,2)
    have "\<forall>r'<9. \<forall>c'<9. sameUnit r c r' c' \<and> (r', c') \<noteq> (r, c) \<longrightarrow>
        board ! r' ! c' \<noteq> Some v"
      by (simp only: isValidMove_iff)
    with b u have "board ! r' ! c' \<noteq> Some v" by blast
    with v show "board ! r' ! c' \<noteq> board ! r ! c" by simp
  qed
next
  assume n: "noClash board"
  show "isBoardValid board"
  proof (rule isBoardValidI)
    fix r c :: nat and v assume b: "r < 9" "c < 9" and v: "board ! r ! c = Some v"
    have "\<forall>r'<9. \<forall>c'<9. sameUnit r c r' c' \<and> (r', c') \<noteq> (r, c) \<longrightarrow>
        board ! r' ! c' \<noteq> Some v"
    proof (intro allI impI, elim conjE)
      fix r' c' :: nat assume "r' < 9" "c' < 9" "sameUnit r c r' c'" "(r', c') \<noteq> (r, c)"
      with n b v have "board ! r' ! c' \<noteq> board ! r ! c"
        by (intro noClashD) simp_all
      with v show "board ! r' ! c' \<noteq> Some v" by simp
    qed
    with b show "isValidMove board r c v" by (simp only: isValidMove_iff)
  qed
qed

lemma isBoardSolved_iff: "isBoardSolved board \<longleftrightarrow> allFilled board \<and> noClash board"
  unfolding isBoardSolved_def allFilled_def isBoardValid_iff
  by (simp only: set_upt Ball_def atLeastLessThan_iff le0 simp_thms)

subsection \<open>Placing a value on a 9x9 board\<close>

lemma wfBoard_nth: "wfBoard board \<Longrightarrow> r < 9 \<Longrightarrow> length (board ! r) = 9"
  by (simp add: wfBoard_def)

lemma wfBoard_setCell: "wfBoard board \<Longrightarrow> wfBoard (setCell board row col v)"
proof (cases "row < length board")
  case True
  assume wf: "wfBoard board"
  with True have "length ((board ! row)[col := v]) = 9" by (simp add: wfBoard_def)
  with wf show ?thesis
    unfolding wfBoard_def setCell_def
    by (auto dest!: set_update_subset_insert[THEN subsetD])
next
  case False
  then have "setCell board row col v = board" by (simp add: setCell_def list_update_beyond)
  then show "wfBoard board \<Longrightarrow> ?thesis" by simp
qed

lemma nth_setCell_wf:
  "wfBoard board \<Longrightarrow> row < 9 \<Longrightarrow> col < 9 \<Longrightarrow>
     setCell board row col v ! r ! c = (if r = row \<and> c = col then v else board ! r ! c)"
  by (simp add: nth_setCell wfBoard_def)

lemma cellIsNull_wf:
  "wfBoard board \<Longrightarrow> r < 9 \<Longrightarrow> c < 9 \<Longrightarrow> cellIsNull board r c \<longleftrightarrow> board ! r ! c = None"
  by (simp add: cellIsNull_def wfBoard_def)

lemma firstEmpty_None:
  assumes "wfBoard board" "firstEmpty board = None"
  shows "allFilled board"
  unfolding allFilled_def
proof (intro allI impI)
  fix r c :: nat assume rc: "r < 9" "c < 9"
  then have "(r, c) \<in> set (List.product [0..<9] [0..<9])" by simp
  with assms(2) have "\<not> cellIsNull board r c"
    unfolding firstEmpty_def find_None_iff by blast
  with assms(1) rc show "board ! r ! c \<noteq> None" by (simp add: cellIsNull_wf)
qed

lemma sameUnit_sym: "sameUnit r c r' c' \<Longrightarrow> sameUnit r' c' r c"
  by (auto simp: sameUnit_def)

lemma isValidMoveD:
  "isValidMove board row col num \<Longrightarrow> row < 9 \<Longrightarrow> col < 9 \<Longrightarrow> r < 9 \<Longrightarrow> c < 9 \<Longrightarrow>
     sameUnit row col r c \<Longrightarrow> (r, c) \<noteq> (row, col) \<Longrightarrow> board ! r ! c \<noteq> Some num"
  by (simp only: isValidMove_iff) blast

lemma noClash_setCell:
  assumes wf: "wfBoard board" and ok: "noClash board" and rc: "row < 9" "col < 9"
    and mv: "isValidMove board row col num"
  shows "noClash (setCell board row col (Some num))"
  unfolding noClash_def
proof (intro allI impI, elim conjE)
  fix r c r' c' :: nat
  assume b: "r < 9" "c < 9" "r' < 9" "c' < 9" and u: "sameUnit r c r' c'"
    and d: "(r', c') \<noteq> (r, c)" and n: "setCell board row col (Some num) ! r ! c \<noteq> None"
  note nth = nth_setCell_wf[OF wf rc]
  show "setCell board row col (Some num) ! r' ! c' \<noteq> setCell board row col (Some num) ! r ! c"
  proof (cases "(r, c) = (row, col)")
    case True
    with d have "(r', c') \<noteq> (row, col)" by simp
    moreover from True u have "sameUnit row col r' c'" by simp
    ultimately have "board ! r' ! c' \<noteq> Some num"
      using isValidMoveD[OF mv rc b(3,4)] by blast
    with True d show ?thesis by (auto simp: nth)
  next
    case False
    show ?thesis
    proof (cases "(r', c') = (row, col)")
      case True
      with u have "sameUnit row col r c" by (simp add: sameUnit_sym)
      with False have "board ! r ! c \<noteq> Some num"
        using isValidMoveD[OF mv rc b(1,2)] by blast
      with True False show ?thesis by (auto simp: nth)
    next
      case other: False
      from False n have "board ! r ! c \<noteq> None" by (auto simp: nth split: if_splits)
      from noClashD[OF ok b u d this] False other show ?thesis by (auto simp: nth)
    qed
  qed
qed

lemma digitsOnly_setCell:
  assumes "wfBoard board" "digitsOnly board" "row < 9" "col < 9" "1 \<le> num" "num \<le> 9"
  shows "digitsOnly (setCell board row col (Some num))"
  using assms unfolding digitsOnly_def
  by (auto simp: nth_setCell_wf split: if_splits)

text \<open>
  \<open>solvedFrom board s\<close>: \<open>s\<close> is a 9x9 board with no empty cell that keeps the values of
  \<open>board\<close>, and it inherits from \<open>board\<close> the absence of clashes and the digit range.
\<close>

definition solvedFrom :: "board \<Rightarrow> board \<Rightarrow> bool" where
  "solvedFrom board s =
     (wfBoard s \<and> allFilled s \<and> agreesOn board s \<and>
      (noClash board \<longrightarrow> noClash s) \<and> (digitsOnly board \<longrightarrow> digitsOnly s))"

lemma solvedFrom_refl: "wfBoard board \<Longrightarrow> allFilled board \<Longrightarrow> solvedFrom board board"
  by (simp add: solvedFrom_def agreesOn_def)

lemma solvedFrom_step:
  assumes wf: "wfBoard board" and rc: "row < 9" "col < 9" and e: "board ! row ! col = None"
    and mv: "isValidMove board row col num" and d: "1 \<le> num" "num \<le> 9"
    and s: "solvedFrom (setCell board row col (Some num)) s"
  shows "solvedFrom board s"
proof -
  have "agreesOn board s"
    unfolding agreesOn_def
  proof (intro allI impI)
    fix r c :: nat assume b: "r < 9" "c < 9" and n: "board ! r ! c \<noteq> None"
    with e have "(r, c) \<noteq> (row, col)" by auto
    then have "setCell board row col (Some num) ! r ! c = board ! r ! c"
      by (auto simp: nth_setCell_wf[OF wf rc])
    with s b n show "s ! r ! c = board ! r ! c"
      unfolding solvedFrom_def agreesOn_def by metis
  qed
  with s noClash_setCell[OF wf _ rc mv] digitsOnly_setCell[OF wf _ rc d]
  show ?thesis unfolding solvedFrom_def by blast
qed

subsection \<open>The search is sound\<close>

lemma solve_sound:
  "wfBoard board \<Longrightarrow> solveSudoku board = (True, s) \<Longrightarrow> solvedFrom board s"
  "wfBoard board \<Longrightarrow> row < 9 \<Longrightarrow> col < 9 \<Longrightarrow> board ! row ! col = None \<Longrightarrow>
     \<forall>n \<in> set nums. 1 \<le> n \<and> n \<le> 9 \<Longrightarrow>
     solveTry board row col nums = (True, s) \<Longrightarrow> solvedFrom board s"
proof (induct board and board row col nums arbitrary: s and s
    rule: solveSudoku_solveTry.induct)
  case (1 board)
  show ?case
  proof (cases "firstEmpty board")
    case None
    with 1(3) have "s = board" by (simp add: solveSudoku.simps)
    with firstEmpty_None[OF 1(2) None] 1(2) show ?thesis by (simp add: solvedFrom_refl)
  next
    case (Some p)
    obtain row col where p: "p = (row, col)" by (cases p)
    from firstEmpty_Some[OF Some[unfolded p]] 1(2)
    have rc: "row < 9" "col < 9" and e: "board ! row ! col = None"
      by (simp_all add: cellIsNull_def)
    from 1(3) Some p
    have "solveTry board row col [1, 2, 3, 4, 5, 6, 7, 8, 9] = (True, s)"
      by (simp add: solveSudoku.simps)
    from 1(1)[OF Some p[symmetric] 1(2) rc e _ this] show ?thesis by simp
  qed
next
  case (2 board row col)
  then show ?case by (simp add: solveTry.simps)
next
  case (3 board row col num nums)
  note wf = \<open>wfBoard board\<close> and rc = \<open>row < 9\<close> \<open>col < 9\<close>
    and e = \<open>board ! row ! col = None\<close>
  from 3(8) have d: "1 \<le> num" "num \<le> 9" and ds: "\<forall>n \<in> set nums. 1 \<le> n \<and> n \<le> 9"
    by simp_all
  show ?case
  proof (cases "isValidMove board row col num")
    case False
    with 3(9) have "solveTry board row col nums = (True, s)" by (simp add: solveTry.simps)
    from 3(3)[OF False wf rc e ds this] show ?thesis .
  next
    case True
    obtain ok y where r: "solveSudoku (setCell board row col (Some num)) = (ok, y)"
      by (cases "solveSudoku (setCell board row col (Some num))")
    show ?thesis
    proof (cases ok)
      case ok: True
      with 3(9) True r have "s = y" by (simp add: solveTry.simps)
      with 3(1)[OF True wfBoard_setCell[OF wf]] r ok
      have "solvedFrom (setCell board row col (Some num)) s" by simp
      from solvedFrom_step[OF wf rc e True d this] show ?thesis .
    next
      case False
      with r have y: "y = setCell board row col (Some num)" by (simp add: solve_fail(1))
      from e wf rc have undone: "setCell y row col None = board"
        by (simp add: y setCell_setCell setCell_same)
      from 3(9) True r False
      have "solveTry (setCell y row col None) row col nums = (True, s)"
        by (simp add: solveTry.simps)
      from 3(2)[OF True r[symmetric] _ _ rc _ ds this] False wf e show ?thesis
        by (simp add: undone)
    qed
  qed
qed

subsection \<open>The search is complete\<close>

text \<open>\<open>fills board s\<close>: \<open>s\<close> is a solved grid of digits that keeps the values of \<open>board\<close>.\<close>

definition fills :: "board \<Rightarrow> board \<Rightarrow> bool" where
  "fills board s = (allFilled s \<and> noClash s \<and> digitsOnly s \<and> agreesOn board s)"

lemma fills_step:
  assumes f: "fills board s" and wf: "wfBoard board" and rc: "row < 9" "col < 9"
    and e: "board ! row ! col = None" and v: "s ! row ! col = Some num"
  shows "isValidMove board row col num" "fills (setCell board row col (Some num)) s"
proof -
  have "\<forall>r<9. \<forall>c<9. sameUnit row col r c \<and> (r, c) \<noteq> (row, col) \<longrightarrow>
      board ! r ! c \<noteq> Some num"
  proof (intro allI impI notI, elim conjE)
    fix r c :: nat
    assume b: "r < 9" "c < 9" and u: "sameUnit row col r c" "(r, c) \<noteq> (row, col)"
      and h: "board ! r ! c = Some num"
    with f have "s ! r ! c = Some num" unfolding fills_def agreesOn_def by simp
    moreover from f have "noClash s" by (simp add: fills_def)
    from noClashD[OF this rc b u] v have "s ! r ! c \<noteq> Some num" by simp
    ultimately show False by simp
  qed
  with rc show "isValidMove board row col num" by (simp only: isValidMove_iff)
  from f v show "fills (setCell board row col (Some num)) s"
    unfolding fills_def agreesOn_def
    by (auto simp: nth_setCell_wf[OF wf rc] split: if_splits)
qed

lemma solve_complete:
  "wfBoard board \<Longrightarrow> fills board s \<Longrightarrow> fst (solveSudoku board)"
  "wfBoard board \<Longrightarrow> row < 9 \<Longrightarrow> col < 9 \<Longrightarrow> board ! row ! col = None \<Longrightarrow>
     fills board s \<Longrightarrow> s ! row ! col \<in> Some ` set nums \<Longrightarrow>
     fst (solveTry board row col nums)"
proof (induct board and board row col nums arbitrary: s and s
    rule: solveSudoku_solveTry.induct)
  case (1 board)
  show ?case
  proof (cases "firstEmpty board")
    case None
    then show ?thesis by (simp add: solveSudoku.simps)
  next
    case (Some p)
    obtain row col where p: "p = (row, col)" by (cases p)
    from firstEmpty_Some[OF Some[unfolded p]] 1(2)
    have rc: "row < 9" "col < 9" and e: "board ! row ! col = None"
      by (simp_all add: cellIsNull_def)
    from 1(3) rc obtain d where d: "s ! row ! col = Some d" "1 \<le> d" "d \<le> 9"
      unfolding fills_def allFilled_def digitsOnly_def by (metis not_Some_eq)
    then have "d \<in> {1, 2, 3, 4, 5, 6, 7, 8, 9}" by auto
    with d(1) have "s ! row ! col \<in> Some ` set [1, 2, 3, 4, 5, 6, 7, 8, 9]" by simp
    from 1(1)[OF Some p[symmetric] 1(2) rc e 1(3) this] Some p show ?thesis
      by (simp add: solveSudoku.simps)
  qed
next
  case (2 board row col)
  then show ?case by simp
next
  case (3 board row col num nums)
  note wf = \<open>wfBoard board\<close> and rc = \<open>row < 9\<close> \<open>col < 9\<close>
    and e = \<open>board ! row ! col = None\<close> and f = \<open>fills board s\<close>
  show ?case
  proof (cases "isValidMove board row col num")
    case False
    with fills_step(1)[OF f wf rc e] have "s ! row ! col \<noteq> Some num" by blast
    with 3(9) have "s ! row ! col \<in> Some ` set nums" by auto
    from 3(3)[OF False wf rc e f this] False show ?thesis by (simp add: solveTry.simps)
  next
    case True
    obtain ok y where r: "solveSudoku (setCell board row col (Some num)) = (ok, y)"
      by (cases "solveSudoku (setCell board row col (Some num))")
    show ?thesis
    proof (cases ok)
      case True
      with \<open>isValidMove board row col num\<close> r show ?thesis by (simp add: solveTry.simps)
    next
      case False
      with r have y: "y = setCell board row col (Some num)" by (simp add: solve_fail(1))
      from e wf rc have undone: "setCell y row col None = board"
        by (simp add: y setCell_setCell setCell_same)
      have "s ! row ! col \<noteq> Some num"
      proof
        assume "s ! row ! col = Some num"
        from fills_step(2)[OF f wf rc e this] 3(1)[OF True wfBoard_setCell[OF wf]] r False
        show False by simp
      qed
      with 3(9) have "s ! row ! col \<in> Some ` set nums" by auto
      from 3(2)[OF True r[symmetric] _ _ rc _ _ this] False wf e f
      have "fst (solveTry board row col nums)" by (simp add: undone)
      with True r False undone show ?thesis by (simp add: solveTry.simps)
    qed
  qed
qed

text \<open>
  \<^verbatim>\<open>board.map(row => [...row])\<close>: a fresh copy of the board. The model passes boards by
  value, so the copy is the same list; a function that works on a copy returns its
  argument as it received it.
\<close>

definition copyBoard :: "board \<Rightarrow> board" where
  "copyBoard board = map (\<lambda>row. row) board"

text \<open>
  \<open>getNextHint\<close> returns the hint together with the caller's board as the call leaves it.
\<close>

definition getNextHint :: "board \<Rightarrow> (nat \<times> nat \<times> int) option \<times> board" where
  "getNextHint board =
     (let solvedBoard = copyBoard board in
      case solveSudoku solvedBoard of
        (False, solvedBoard') \<Rightarrow> (None, board)
      | (True, solvedBoard') \<Rightarrow>
          (case find (\<lambda>(row, col). cellIsNull board row col \<and> solvedBoard' ! row ! col \<noteq> None)
                  (List.product [0..<9] [0..<9]) of
             Some (row, col) \<Rightarrow> (Some (row, col, the (solvedBoard' ! row ! col)), board)
           | None \<Rightarrow> (None, board)))"

definition isSolvable :: "board \<Rightarrow> bool" where
  "isSolvable board = (let testBoard = copyBoard board in fst (solveSudoku testBoard))"

text \<open>The data model of the program: a 9x9 board whose filled cells hold digits 1..9.\<close>

definition isGrid :: "board \<Rightarrow> bool" where
  "isGrid board =
     (wfBoard board \<and>
      (\<forall>row \<in> set board. \<forall>cell \<in> set row.
         case cell of None \<Rightarrow> True | Some d \<Rightarrow> 1 \<le> d \<and> d \<le> 9))"

text \<open>
  \<open>isCompletion board s\<close>: \<open>s\<close> is a grid that \<open>isBoardSolved\<close> accepts and that keeps
  every filled cell of \<open>board\<close>.
\<close>

definition isCompletion :: "board \<Rightarrow> board \<Rightarrow> bool" where
  "isCompletion board s =
     (isGrid s \<and> isBoardSolved s \<and>
      (\<forall>row \<in> set [0..<9]. \<forall>col \<in> set [0..<9].
         board ! row ! col \<noteq> None \<longrightarrow> s ! row ! col = board ! row ! col))"

definition hasEmptyCell :: "board \<Rightarrow> bool" where
  "hasEmptyCell board = (\<exists>row \<in> set [0..<9]. \<exists>col \<in> set [0..<9]. board ! row ! col = None)"

lemma copyBoard_id: "copyBoard board = board"
  by (simp add: copyBoard_def)

lemma isGrid_iff: "isGrid board \<longleftrightarrow> wfBoard board \<and> digitsOnly board"
proof
  assume g: "isGrid board"
  then have wf: "wfBoard board" by (simp add: isGrid_def)
  have "digitsOnly board"
    unfolding digitsOnly_def
  proof (intro allI impI)
    fix r c :: nat and d assume rc: "r < 9" "c < 9" and v: "board ! r ! c = Some d"
    from wf rc have "board ! r \<in> set board" "board ! r ! c \<in> set (board ! r)"
      by (simp_all add: wfBoard_def)
    with g v show "1 \<le> d \<and> d \<le> 9" unfolding isGrid_def by force
  qed
  with wf show "wfBoard board \<and> digitsOnly board" ..
next
  assume h: "wfBoard board \<and> digitsOnly board"
  have "case cell of None \<Rightarrow> True | Some d \<Rightarrow> 1 \<le> d \<and> d \<le> 9"
    if "row \<in> set board" "cell \<in> set row" for row cell
  proof -
    from that(1) h obtain r where r: "r < 9" "row = board ! r"
      unfolding wfBoard_def in_set_conv_nth by auto
    with that(2) h obtain c where c: "c < 9" "cell = board ! r ! c"
      unfolding wfBoard_def in_set_conv_nth by auto
    with r h show ?thesis unfolding digitsOnly_def by (auto split: option.split)
  qed
  with h show "isGrid board" unfolding isGrid_def by blast
qed

lemma agreesOn_iff:
  "(\<forall>row \<in> set [0..<9]. \<forall>col \<in> set [0..<9].
      board ! row ! col \<noteq> None \<longrightarrow> s ! row ! col = board ! row ! col) \<longleftrightarrow> agreesOn board s"
  unfolding agreesOn_def
  by (simp only: set_upt Ball_def atLeastLessThan_iff le0 simp_thms)

lemma isCompletion_iff: "isCompletion board s \<longleftrightarrow> wfBoard s \<and> fills board s"
  unfolding isCompletion_def agreesOn_iff isGrid_iff isBoardSolved_iff fills_def by blast

lemma hasEmptyCell_iff: "hasEmptyCell board \<longleftrightarrow> \<not> allFilled board"
  unfolding hasEmptyCell_def allFilled_def
  by (simp only: set_upt Bex_def atLeastLessThan_iff le0 simp_thms) simp

text \<open>On a conflict-free grid the search succeeds exactly when a completion exists.\<close>

lemma solveSudoku_correct:
  assumes g: "isGrid board" and v: "isBoardValid board"
  shows "fst (solveSudoku board) \<longleftrightarrow> (\<exists>s. isCompletion board s)"
    and "fst (solveSudoku board) \<Longrightarrow> isCompletion board (snd (solveSudoku board))"
proof -
  from g have wf: "wfBoard board" and d: "digitsOnly board" by (simp_all add: isGrid_iff)
  from v have n: "noClash board" by (simp add: isBoardValid_iff)
  show found: "isCompletion board (snd (solveSudoku board))" if "fst (solveSudoku board)"
  proof -
    from that have "solveSudoku board = (True, snd (solveSudoku board))"
      by (cases "solveSudoku board") simp
    from solve_sound(1)[OF wf this] d n show ?thesis
      by (simp add: isCompletion_iff solvedFrom_def fills_def)
  qed
  show "fst (solveSudoku board) \<longleftrightarrow> (\<exists>s. isCompletion board s)"
  proof
    assume "fst (solveSudoku board)"
    with found show "\<exists>s. isCompletion board s" by blast
  next
    assume "\<exists>s. isCompletion board s"
    then obtain s where "fills board s" by (auto simp: isCompletion_iff)
    from solve_complete(1)[OF wf this] show "fst (solveSudoku board)" .
  qed
qed

subsection \<open>The first empty cell\<close>

lemma product_nth_9:
  assumes "i < 81"
  shows "List.product [0..<9] [0..<9] ! i = (i div 9, i mod 9)"
proof -
  from assms have "i div 9 < 9" by simp
  with assms show ?thesis by (simp add: product_nth del: upt_rec_numeral)
qed

lemma firstEmpty_first:
  assumes wf: "wfBoard board" and f: "firstEmpty board = Some (row, col)"
  shows "row < 9 \<and> col < 9 \<and> board ! row ! col = None \<and>
         (\<forall>r<9. \<forall>c<9. 9 * r + c < 9 * row + col \<longrightarrow> board ! r ! c \<noteq> None)"
proof -
  from f obtain i where i: "i < 81"
      "List.product [0..<9] [0..<9] ! i = (row, col)"
      and before: "\<forall>j<i. \<not> (case List.product [0..<9] [0..<9] ! j of
          (r, c) \<Rightarrow> cellIsNull board r c)"
    unfolding firstEmpty_def find_Some_iff by auto
  from i have rc: "row = i div 9" "col = i mod 9" by (simp_all add: product_nth_9)
  from firstEmpty_Some[OF f] wf have here: "row < 9" "col < 9" "board ! row ! col = None"
    by (auto simp: cellIsNull_wf)
  have "board ! r ! c \<noteq> None" if "r < 9" "c < 9" "9 * r + c < 9 * row + col" for r c
  proof -
    let ?j = "9 * r + c"
    have "i = 9 * (i div 9) + i mod 9" by simp
    with that rc have j: "?j < i" by metis
    with i(1) have "?j < 81" by simp
    from product_nth_9[OF this] that(2) have "List.product [0..<9] [0..<9] ! ?j = (r, c)"
      by simp
    with before j have "\<not> cellIsNull board r c" by (metis case_prod_conv)
    with wf that show ?thesis by (simp add: cellIsNull_wf)
  qed
  with here show ?thesis by blast
qed

lemma firstEmpty_hasEmptyCell:
  assumes "wfBoard board"
  shows "firstEmpty board \<noteq> None \<longleftrightarrow> hasEmptyCell board"
proof
  assume "firstEmpty board \<noteq> None"
  then obtain row col where "firstEmpty board = Some (row, col)" by auto
  from firstEmpty_Some[OF this] assms
  have "row < 9" "col < 9" "board ! row ! col = None"
    by (auto simp: cellIsNull_wf)
  then have "\<not> allFilled board" unfolding allFilled_def by blast
  then show "hasEmptyCell board" by (simp add: hasEmptyCell_iff)
next
  assume "hasEmptyCell board"
  then obtain r c where rc: "r < 9" "c < 9" "board ! r ! c = None"
    by (auto simp: hasEmptyCell_iff allFilled_def)
  then have "(r, c) \<in> set (List.product [0..<9] [0..<9])" by simp
  moreover from rc assms have "cellIsNull board r c" by (simp add: cellIsNull_wf)
  ultimately show "firstEmpty board \<noteq> None"
    unfolding firstEmpty_def find_None_iff by blast
qed

lemma getNextHint_solved_scan:
  assumes wf: "wfBoard board" and full: "allFilled s"
  shows "find (\<lambda>(row, col). cellIsNull board row col \<and> s ! row ! col \<noteq> None)
           (List.product [0..<9] [0..<9]) = firstEmpty board"
  unfolding firstEmpty_def
proof (rule find_cong[OF refl])
  fix x assume "x \<in> set (List.product [0..<9] [0..<9])"
  then obtain r c where "x = (r, c)" "r < 9" "c < 9" by auto
  with full show "(case x of (row, col) \<Rightarrow> cellIsNull board row col \<and> s ! row ! col \<noteq> None) =
      (case x of (row, col) \<Rightarrow> cellIsNull board row col)"
    by (simp add: allFilled_def)
qed

lemma getNextHint_eq:
  assumes wf: "wfBoard board"
  shows "getNextHint board =
     (if isSolvable board then
        (case firstEmpty board of
           None \<Rightarrow> None
         | Some (row, col) \<Rightarrow> Some (row, col, the (snd (solveSudoku board) ! row ! col)))
      else None, board)"
proof (cases "solveSudoku board")
  case (Pair ok s)
  show ?thesis
  proof (cases ok)
    case False
    with Pair show ?thesis by (simp add: getNextHint_def isSolvable_def copyBoard_id)
  next
    case True
    with Pair solve_sound(1)[OF wf] have "allFilled s" by (simp add: solvedFrom_def)
    note scan = getNextHint_solved_scan[OF wf this]
    from Pair True show ?thesis
      by (simp add: getNextHint_def isSolvable_def copyBoard_id scan
          del: not_None_eq split: option.split prod.split)
  qed
qed

section \<open>sudokuGenerator.ts: hasUniqueSolution\<close>

text \<open>
  The inner function \<^verbatim>\<open>solve\<close> of \<open>hasUniqueSolution\<close> works on the local \<^verbatim>\<open>testBoard\<close> and
  the counter \<^verbatim>\<open>solutionCount\<close>; the model passes both in and returns them with the boolean.
\<close>

function hasUniqueSolution_solve :: "board \<Rightarrow> nat \<Rightarrow> bool \<times> board \<times> nat"
  and hasUniqueSolution_try ::
    "board \<Rightarrow> nat \<Rightarrow> nat \<Rightarrow> nat \<Rightarrow> int list \<Rightarrow> bool \<times> board \<times> nat" where
  "hasUniqueSolution_solve testBoard solutionCount =
     (case firstEmpty testBoard of
        None \<Rightarrow> (solutionCount + 1 \<ge> 2, testBoard, solutionCount + 1)
      | Some (row, col) \<Rightarrow>
          hasUniqueSolution_try testBoard solutionCount row col [1, 2, 3, 4, 5, 6, 7, 8, 9])"
| "hasUniqueSolution_try testBoard solutionCount row col [] = (False, testBoard, solutionCount)"
| "hasUniqueSolution_try testBoard solutionCount row col (num # nums) =
     (if isValidMove testBoard row col num then
        (case hasUniqueSolution_solve (setCell testBoard row col (Some num)) solutionCount of
           (True, testBoard', solutionCount') \<Rightarrow> (True, testBoard', solutionCount')
         | (False, testBoard', solutionCount') \<Rightarrow>
             hasUniqueSolution_try (setCell testBoard' row col None) solutionCount' row col nums)
      else hasUniqueSolution_try testBoard solutionCount row col nums)"
  by pat_completeness auto

lemma unique_fail_dom:
  "hasUniqueSolution_solve_hasUniqueSolution_try_dom (Inl (board, n)) \<Longrightarrow>
     hasUniqueSolution_solve board n = (False, board', n') \<Longrightarrow> board' = board"
  "hasUniqueSolution_solve_hasUniqueSolution_try_dom (Inr (board, n, row, col, nums)) \<Longrightarrow>
     hasUniqueSolution_try board n row col nums = (False, board', n') \<Longrightarrow>
     board' = board \<or> board' = setCell board row col None"
proof (induct board n and board n row col nums arbitrary: board' n' and board' n'
    rule: hasUniqueSolution_solve_hasUniqueSolution_try.pinduct)
  case (1 board n)
  show ?case
  proof (cases "firstEmpty board")
    case None
    with 1 show ?thesis by (simp add: hasUniqueSolution_solve.psimps)
  next
    case (Some p)
    obtain row col where p: "p = (row, col)" by (cases p)
    from firstEmpty_Some[OF Some[unfolded p]] have "setCell board row col None = board"
      by (simp add: setCell_same cellIsNull_def)
    moreover from 1(1,3) Some p
    have "hasUniqueSolution_try board n row col [1, 2, 3, 4, 5, 6, 7, 8, 9] = (False, board', n')"
      by (simp add: hasUniqueSolution_solve.psimps)
    ultimately show ?thesis using 1(2)[OF Some p[symmetric]] by auto
  qed
next
  case (2 board n row col)
  then show ?case by (simp add: hasUniqueSolution_try.psimps)
next
  case (3 board n row col num nums)
  show ?case
  proof (cases "isValidMove board row col num")
    case False
    with 3 show ?thesis by (simp add: hasUniqueSolution_try.psimps)
  next
    case True
    obtain ok y m where r:
      "hasUniqueSolution_solve (setCell board row col (Some num)) n = (ok, y, m)"
      by (cases "hasUniqueSolution_solve (setCell board row col (Some num)) n")
    show ?thesis
    proof (cases ok)
      case True
      with 3(1,5) \<open>isValidMove board row col num\<close> r show ?thesis
        by (simp add: hasUniqueSolution_try.psimps)
    next
      case False
      with 3(2)[OF True] r have y: "y = setCell board row col (Some num)" by simp
      from 3(1,5) True r False
      have "hasUniqueSolution_try (setCell y row col None) m row col nums = (False, board', n')"
        by (simp add: hasUniqueSolution_try.psimps)
      from 3(3)[OF True r[symmetric] _ refl this] False show ?thesis
        by (simp add: y setCell_setCell)
    qed
  qed
qed

termination hasUniqueSolution_solve
proof (relation "inv_image (less_than <*lex*> less_than <*lex*> less_than)
     (\<lambda>x. case x of
        Inl (board, n) \<Rightarrow> (card (emptyCells board), 1::nat, 0::nat)
      | Inr (board, n, row, col, nums) \<Rightarrow>
          (Suc (card (emptyCells board - {(row, col)})), 0, length nums))", goal_cases)
  case 1
  show ?case by (intro wf_inv_image wf_lex_prod wf_less_than)
next
  case (2 board n p row col)
  then have "firstEmpty board = Some (row, col)" by simp
  then have "(row, col) \<in> emptyCells board"
    using firstEmpty_Some[of board row col] by (simp add: emptyCells_def)
  then have "Suc (card (emptyCells board - {(row, col)})) = card (emptyCells board)"
    by (rule card_Suc_Diff1[OF finite_emptyCells])
  then show ?case by simp
next
  case (3 board n row col num nums)
  then show ?case by (simp add: emptyCells_setCell_Some)
next
  case (4 board n row col num nums ok rest y m)
  then have "y = setCell board row col (Some num)"
    using unique_fail_dom(1)[of "setCell board row col (Some num)" n y m] by simp
  then show ?case
    by (simp add: setCell_setCell emptyCells_setCell_None)
next
  case 5
  then show ?case by simp
qed

declare hasUniqueSolution_solve.simps [simp del] hasUniqueSolution_try.simps [simp del]

definition hasUniqueSolution :: "board \<Rightarrow> bool" where
  "hasUniqueSolution puzzle =
     (let testBoard = copyBoard puzzle;
          (ok, testBoard', solutionCount) = hasUniqueSolution_solve testBoard 0
      in solutionCount = 1)"

subsection \<open>Counting completions\<close>

definition solutions :: "board \<Rightarrow> board set" where
  "solutions board = {s. wfBoard s \<and> fills board s}"

definition solutionsAt :: "board \<Rightarrow> nat \<Rightarrow> nat \<Rightarrow> int list \<Rightarrow> board set" where
  "solutionsAt board row col nums = {s \<in> solutions board. s ! row ! col \<in> Some ` set nums}"

lemma board_eqI:
  assumes "wfBoard a" "wfBoard b" "\<And>r c. r < 9 \<Longrightarrow> c < 9 \<Longrightarrow> a ! r ! c = b ! r ! c"
  shows "a = b"
proof (rule nth_equalityI)
  from assms(1,2) show "length a = length b" by (simp add: wfBoard_def)
next
  fix r assume "r < length a"
  with assms(1) have r: "r < 9" by (simp add: wfBoard_def)
  show "a ! r = b ! r"
  proof (rule nth_equalityI)
    from assms(1,2) r show "length (a ! r) = length (b ! r)" by (simp add: wfBoard_nth)
  next
    fix c assume "c < length (a ! r)"
    with assms(1) r have "c < 9" by (simp add: wfBoard_nth)
    with r show "a ! r ! c = b ! r ! c" by (rule assms(3))
  qed
qed

lemma finite_solutions: "finite (solutions board)"
proof -
  let ?rows = "{row. set row \<subseteq> Some ` {1..9::int} \<and> length row = 9}"
  have fr: "finite ?rows" by (rule finite_lists_length_eq) simp
  have "solutions board \<subseteq> {s. set s \<subseteq> ?rows \<and> length s = 9}"
  proof
    fix s assume "s \<in> solutions board"
    then have wf: "wfBoard s" and f: "allFilled s" "digitsOnly s"
      by (simp_all add: solutions_def fills_def)
    have "row \<in> ?rows" if "row \<in> set s" for row
    proof -
      from that wf obtain r where r: "r < 9" "row = s ! r"
        unfolding wfBoard_def in_set_conv_nth by auto
      have "cell \<in> Some ` {1..9}" if "cell \<in> set row" for cell
      proof -
        from that r wf obtain c where c: "c < 9" "cell = s ! r ! c"
          unfolding wfBoard_def in_set_conv_nth by auto
        with r f obtain d where "cell = Some d" "1 \<le> d" "d \<le> 9"
          unfolding allFilled_def digitsOnly_def by (metis not_Some_eq)
        then show ?thesis by simp
      qed
      with wf r show ?thesis by (auto simp: wfBoard_nth)
    qed
    with wf show "s \<in> {s. set s \<subseteq> ?rows \<and> length s = 9}" by (auto simp: wfBoard_def)
  qed
  moreover have "finite {s. set s \<subseteq> ?rows \<and> length s = 9}"
    by (rule finite_lists_length_eq[OF fr])
  ultimately show ?thesis by (rule finite_subset)
qed

lemma solutions_full:
  assumes "wfBoard board" "allFilled board" "noClash board" "digitsOnly board"
  shows "solutions board = {board}"
proof (intro equalityI subsetI)
  fix s assume "s \<in> solutions board"
  then have wf: "wfBoard s" and a: "agreesOn board s" by (simp_all add: solutions_def fills_def)
  have "s = board"
  proof (rule board_eqI[OF wf assms(1)])
    fix r c :: nat assume "r < 9" "c < 9"
    with a assms(2) show "s ! r ! c = board ! r ! c" by (simp add: agreesOn_def allFilled_def)
  qed
  then show "s \<in> {board}" by simp
next
  fix s assume "s \<in> {board}"
  with assms show "s \<in> solutions board" by (simp add: solutions_def fills_def agreesOn_def)
qed

lemma agreesOn_setCell:
  assumes wf: "wfBoard board" and rc: "row < 9" "col < 9" and e: "board ! row ! col = None"
  shows "agreesOn (setCell board row col (Some num)) s \<longleftrightarrow>
         agreesOn board s \<and> s ! row ! col = Some num"
proof
  assume a: "agreesOn (setCell board row col (Some num)) s"
  have "s ! row ! col = Some num"
    using a rc unfolding agreesOn_def by (simp add: nth_setCell_wf[OF wf rc])
  moreover have "agreesOn board s"
    unfolding agreesOn_def
  proof (intro allI impI)
    fix r c :: nat assume b: "r < 9" "c < 9" and n: "board ! r ! c \<noteq> None"
    with e have "\<not> (r = row \<and> c = col)" by auto
    then have "setCell board row col (Some num) ! r ! c = board ! r ! c"
      by (auto simp: nth_setCell_wf[OF wf rc])
    with a b n show "s ! r ! c = board ! r ! c" unfolding agreesOn_def by simp
  qed
  ultimately show "agreesOn board s \<and> s ! row ! col = Some num" by simp
next
  assume a: "agreesOn board s \<and> s ! row ! col = Some num"
  show "agreesOn (setCell board row col (Some num)) s"
    unfolding agreesOn_def
  proof (intro allI impI)
    fix r c :: nat assume b: "r < 9" "c < 9"
      and n: "setCell board row col (Some num) ! r ! c \<noteq> None"
    show "s ! r ! c = setCell board row col (Some num) ! r ! c"
    proof (cases "r = row \<and> c = col")
      case True
      with a show ?thesis by (simp add: nth_setCell_wf[OF wf rc])
    next
      case False
      then have same: "setCell board row col (Some num) ! r ! c = board ! r ! c"
        by (auto simp: nth_setCell_wf[OF wf rc])
      with n have "board ! r ! c \<noteq> None" by simp
      with a b have "s ! r ! c = board ! r ! c" unfolding agreesOn_def by simp
      with same show ?thesis by simp
    qed
  qed
qed

lemma solutions_setCell:
  assumes wf: "wfBoard board" and rc: "row < 9" "col < 9" and e: "board ! row ! col = None"
  shows "solutions (setCell board row col (Some num)) =
         {s \<in> solutions board. s ! row ! col = Some num}"
  unfolding solutions_def fills_def agreesOn_setCell[OF assms] by blast

lemma solutionsAt_Nil: "solutionsAt board row col [] = {}"
  by (simp add: solutionsAt_def)

lemma solutionsAt_Cons:
  "solutionsAt board row col (num # nums) =
     {s \<in> solutions board. s ! row ! col = Some num} \<union> solutionsAt board row col nums"
  by (auto simp: solutionsAt_def)

lemma solutions_invalid:
  assumes "wfBoard board" "row < 9" "col < 9" "board ! row ! col = None"
    "\<not> isValidMove board row col num"
  shows "{s \<in> solutions board. s ! row ! col = Some num} = {}"
  using fills_step(1)[OF _ assms(1-4)] assms(5) by (auto simp: solutions_def)

lemma solutions_eq_At:
  assumes "row < 9" "col < 9"
  shows "solutions board = solutionsAt board row col [1, 2, 3, 4, 5, 6, 7, 8, 9]"
proof -
  have "s ! row ! col \<in> Some ` set [1, 2, 3, 4, 5, 6, 7, 8, 9]" if "s \<in> solutions board" for s
  proof -
    from that have "allFilled s" "digitsOnly s" by (simp_all add: solutions_def fills_def)
    with assms obtain d where d: "s ! row ! col = Some d" "1 \<le> d" "d \<le> 9"
      unfolding allFilled_def digitsOnly_def by (metis not_Some_eq)
    then have "d \<in> {1, 2, 3, 4, 5, 6, 7, 8, 9}" by auto
    with d(1) show ?thesis by simp
  qed
  then show ?thesis unfolding solutionsAt_def by blast
qed

lemma card_solutionsAt_Cons:
  assumes "wfBoard board" "row < 9" "col < 9" "board ! row ! col = None" "num \<notin> set nums"
  shows "card (solutionsAt board row col (num # nums)) =
         card (solutions (setCell board row col (Some num))) + card (solutionsAt board row col nums)"
proof -
  have "finite (solutionsAt board row col nums)"
    unfolding solutionsAt_def using finite_solutions by simp
  moreover have "finite (solutions (setCell board row col (Some num)))"
    by (rule finite_solutions)
  moreover have "solutions (setCell board row col (Some num)) \<inter> solutionsAt board row col nums = {}"
    unfolding solutions_setCell[OF assms(1-4)] solutionsAt_def using assms(5) by auto
  ultimately show ?thesis
    unfolding solutionsAt_Cons solutions_setCell[OF assms(1-4), symmetric]
    by (simp add: card_Un_disjoint)
qed

lemma unique_count:
  "wfBoard board \<Longrightarrow> noClash board \<Longrightarrow> digitsOnly board \<Longrightarrow> n < 2 \<Longrightarrow>
     hasUniqueSolution_solve board n = (ok, board', n') \<Longrightarrow>
     n' = min 2 (n + card (solutions board)) \<and> ok = (2 \<le> n') \<and> (\<not> ok \<longrightarrow> board' = board)"
  "wfBoard board \<Longrightarrow> noClash board \<Longrightarrow> digitsOnly board \<Longrightarrow> row < 9 \<Longrightarrow> col < 9 \<Longrightarrow>
     board ! row ! col = None \<Longrightarrow> distinct nums \<Longrightarrow> \<forall>d \<in> set nums. 1 \<le> d \<and> d \<le> 9 \<Longrightarrow> n < 2 \<Longrightarrow>
     hasUniqueSolution_try board n row col nums = (ok, board', n') \<Longrightarrow>
     n' = min 2 (n + card (solutionsAt board row col nums)) \<and> ok = (2 \<le> n') \<and>
     (\<not> ok \<longrightarrow> board' = board)"
proof (induct board n and board n row col nums arbitrary: ok board' n' and ok board' n'
    rule: hasUniqueSolution_solve_hasUniqueSolution_try.induct)
  case (1 board n)
  note wf = \<open>wfBoard board\<close> and nc = \<open>noClash board\<close> and dg = \<open>digitsOnly board\<close>
  show ?case
  proof (cases "firstEmpty board")
    case None
    from solutions_full[OF wf firstEmpty_None[OF wf None] nc dg]
    have "card (solutions board) = 1" by simp
    with 1(5,6) None show ?thesis
      by (auto simp: hasUniqueSolution_solve.simps)
  next
    case (Some p)
    obtain row col where p: "p = (row, col)" by (cases p)
    from firstEmpty_Some[OF Some[unfolded p]] wf
    have rc: "row < 9" "col < 9" and e: "board ! row ! col = None"
      by (simp_all add: cellIsNull_def)
    from 1(6) Some p
    have "hasUniqueSolution_try board n row col [1, 2, 3, 4, 5, 6, 7, 8, 9] = (ok, board', n')"
      by (simp add: hasUniqueSolution_solve.simps)
    from 1(1)[OF Some p[symmetric] wf nc dg rc e _ _ 1(5) this]
    show ?thesis by (simp add: solutions_eq_At[OF rc, symmetric])
  qed
next
  case (2 board n row col)
  then show ?case by (simp add: hasUniqueSolution_try.simps solutionsAt_Nil)
next
  case (3 board n row col num nums)
  note wf = \<open>wfBoard board\<close> and nc = \<open>noClash board\<close> and dg = \<open>digitsOnly board\<close>
    and rc = \<open>row < 9\<close> \<open>col < 9\<close> and e = \<open>board ! row ! col = None\<close> and n2 = \<open>n < 2\<close>
  from 3(10) have fresh: "num \<notin> set nums" and dist: "distinct nums" by simp_all
  from 3(11) have d: "1 \<le> num" "num \<le> 9" and ds: "\<forall>d \<in> set nums. 1 \<le> d \<and> d \<le> 9"
    by simp_all
  note res = \<open>hasUniqueSolution_try board n row col (num # nums) = (ok, board', n')\<close>
  show ?case
  proof (cases "isValidMove board row col num")
    case False
    with res have "hasUniqueSolution_try board n row col nums = (ok, board', n')"
      by (simp add: hasUniqueSolution_try.simps)
    from 3(3)[OF False wf nc dg rc e dist ds n2 this] show ?thesis
      by (simp add: solutionsAt_Cons solutions_invalid[OF wf rc e False])
  next
    case True
    let ?b1 = "setCell board row col (Some num)"
    note card = card_solutionsAt_Cons[OF wf rc e fresh]
    obtain ok1 y m where r: "hasUniqueSolution_solve ?b1 n = (ok1, y, m)"
      by (cases "hasUniqueSolution_solve ?b1 n")
    from 3(1)[OF True wfBoard_setCell[OF wf] noClash_setCell[OF wf nc rc True]
        digitsOnly_setCell[OF wf dg rc d] n2 r]
    have m: "m = min 2 (n + card (solutions ?b1))" "ok1 = (2 \<le> m)" "\<not> ok1 \<longrightarrow> y = ?b1"
      by simp_all
    show ?thesis
    proof (cases ok1)
      case ok1: True
      with res True r have "ok" "n' = m" by (simp_all add: hasUniqueSolution_try.simps)
      with m ok1 show ?thesis by (simp add: card)
    next
      case False
      with m have y: "y = ?b1" and m2: "m < 2" and mm: "m = n + card (solutions ?b1)"
        by auto
      from e wf rc have undone: "setCell y row col None = board"
        by (simp add: y setCell_setCell setCell_same)
      from res True r False
      have "hasUniqueSolution_try (setCell y row col None) m row col nums = (ok, board', n')"
        by (simp add: hasUniqueSolution_try.simps)
      then have "hasUniqueSolution_try board m row col nums = (ok, board', n')"
        by (simp add: undone)
      from 3(2)[OF True r[symmetric] _ refl, unfolded undone, OF _ wf nc dg rc e dist ds m2 this]
        False
      show ?thesis by (simp add: card mm add.assoc)
    qed
  qed
qed

text \<open>
  On a conflict-free grid \<open>hasUniqueSolution\<close> returns true exactly when there is one
  completion and no other.
\<close>

lemma solutions_eq_isCompletion: "solutions board = {s. isCompletion board s}"
  by (simp add: solutions_def isCompletion_iff)

lemma hasUniqueSolution_correct:
  assumes g: "isGrid board" and v: "isBoardValid board"
  shows "hasUniqueSolution board \<longleftrightarrow>
     (\<exists>s. isCompletion board s \<and> (\<forall>t. isCompletion board t \<longrightarrow> t = s))"
proof -
  from g have wf: "wfBoard board" and d: "digitsOnly board" by (simp_all add: isGrid_iff)
  from v have nc: "noClash board" by (simp add: isBoardValid_iff)
  obtain ok b' n' where r: "hasUniqueSolution_solve board 0 = (ok, b', n')"
    by (cases "hasUniqueSolution_solve board 0")
  from unique_count(1)[OF wf nc d _ r] have "n' = min 2 (card (solutions board))" by simp
  with r have "hasUniqueSolution board \<longleftrightarrow> card (solutions board) = 1"
    by (auto simp: hasUniqueSolution_def copyBoard_id)
  also have "\<dots> \<longleftrightarrow> (\<exists>s. solutions board = {s})" by (simp add: card_1_singleton_iff)
  also have "\<dots> \<longleftrightarrow> (\<exists>s. isCompletion board s \<and> (\<forall>t. isCompletion board t \<longrightarrow> t = s))"
    unfolding solutions_eq_isCompletion by auto
  finally show ?thesis .
qed

section \<open>Example boards\<close>

text \<open>
  A board on which the search fails at once: the only empty cell of the first row needs
  a 9, and the 9 below it in the same column forbids that.
\<close>

definition blockedBoard :: board where
  "blockedBoard =
     [[Some 1, Some 2, Some 3, Some 4, Some 5, Some 6, Some 7, Some 8, None],
      [None, None, None, None, None, None, None, None, Some 9],
      [None, None, None, None, None, None, None, None, None],
      [None, None, None, None, None, None, None, None, None],
      [None, None, None, None, None, None, None, None, None],
      [None, None, None, None, None, None, None, None, None],
      [None, None, None, None, None, None, None, None, None],
      [None, None, None, None, None, None, None, None, None],
      [None, None, None, None, None, None, None, None, None]]"

lemma solveSudoku_blockedBoard: "solveSudoku blockedBoard = (False, blockedBoard)"
  by code_simp

text \<open>A solved grid, and the same grid with the cells (4,4) and (8,8) taken out.\<close>

definition solvedExample :: board where
  "solvedExample =
     [[Some 1, Some 2, Some 3, Some 4, Some 5, Some 6, Some 7, Some 8, Some 9],
      [Some 4, Some 5, Some 6, Some 7, Some 8, Some 9, Some 1, Some 2, Some 3],
      [Some 7, Some 8, Some 9, Some 1, Some 2, Some 3, Some 4, Some 5, Some 6],
      [Some 2, Some 3, Some 4, Some 5, Some 6, Some 7, Some 8, Some 9, Some 1],
      [Some 5, Some 6, Some 7, Some 8, Some 9, Some 1, Some 2, Some 3, Some 4],
      [Some 8, Some 9, Some 1, Some 2, Some 3, Some 4, Some 5, Some 6, Some 7],
      [Some 3, Some 4, Some 5, Some 6, Some 7, Some 8, Some 9, Some 1, Some 2],
      [Some 6, Some 7, Some 8, Some 9, Some 1, Some 2, Some 3, Some 4, Some 5],
      [Some 9, Some 1, Some 2, Some 3, Some 4, Some 5, Some 6, Some 7, Some 8]]"

definition hintExample :: board where
  "hintExample =
     [[Some 1, Some 2, Some 3, Some 4, Some 5, Some 6, Some 7, Some 8, Some 9],
      [Some 4, Some 5, Some 6, Some 7, Some 8, Some 9, Some 1, Some 2, Some 3],
      [Some 7, Some 8, Some 9, Some 1, Some 2, Some 3, Some 4, Some 5, Some 6],
      [Some 2, Some 3, Some 4, Some 5, Some 6, Some 7, Some 8, Some 9, Some 1],
      [Some 5, Some 6, Some 7, Some 8, None, Some 1, Some 2, Some 3, Some 4],
      [Some 8, Some 9, Some 1, Some 2, Some 3, Some 4, Some 5, Some 6, Some 7],
      [Some 3, Some 4, Some 5, Some 6, Some 7, Some 8, Some 9, Some 1, Some 2],
      [Some 6, Some 7, Some 8, Some 9, Some 1, Some 2, Some 3, Some 4, Some 5],
      [Some 9, Some 1, Some 2, Some 3, Some 4, Some 5, Some 6, Some 7, None]]"

text \<open>
  The solved grid with a second 2 typed into the first row (cell (0,0), next to the 2 at
  (0,1)) and the last cell left empty: a board a player can reach before pressing Solve.
\<close>

definition conflictExample :: board where
  "conflictExample =
     [[Some 2, Some 2, Some 3, Some 4, Some 5, Some 6, Some 7, Some 8, Some 9],
      [Some 4, Some 5, Some 6, Some 7, Some 8, Some 9, Some 1, Some 2, Some 3],
      [Some 7, Some 8, Some 9, Some 1, Some 2, Some 3, Some 4, Some 5, Some 6],
      [Some 2, Some 3, Some 4, Some 5, Some 6, Some 7, Some 8, Some 9, Some 1],
      [Some 5, Some 6, Some 7, Some 8, Some 9, Some 1, Some 2, Some 3, Some 4],
      [Some 8, Some 9, Some 1, Some 2, Some 3, Some 4, Some 5, Some 6, Some 7],
      [Some 3, Some 4, Some 5, Some 6, Some 7, Some 8, Some 9, Some 1, Some 2],
      [Some 6, Some 7, Some 8, Some 9, Some 1, Some 2, Some 3, Some 4, Some 5],
      [Some 9, Some 1, Some 2, Some 3, Some 4, Some 5, Some 6, Some 7, None]]"

lemma solveSudoku_hintExample: "solveSudoku hintExample = (True, solvedExample)"
  by code_simp

lemma getNextHint_hintExample: "fst (getNextHint hintExample) = Some (4, 4, 9)"
  by code_simp

lemma solveSudoku_conflictExample:
  "solveSudoku conflictExample = (True, setCell conflictExample 8 8 (Some 8))"
  by code_simp

text \<open>The empty board, and a second solved grid (the first with 1 and 2 exchanged).\<close>

definition emptyBoard :: board where
  "emptyBoard = replicate 9 (replicate 9 None)"

definition solvedExample2 :: board where
  "solvedExample2 =
     [[Some 2, Some 1, Some 3, Some 4, Some 5, Some 6, Some 7, Some 8, Some 9],
      [Some 4, Some 5, Some 6, Some 7, Some 8, Some 9, Some 2, Some 1, Some 3],
      [Some 7, Some 8, Some 9, Some 2, Some 1, Some 3, Some 4, Some 5, Some 6],
      [Some 1, Some 3, Some 4, Some 5, Some 6, Some 7, Some 8, Some 9, Some 2],
      [Some 5, Some 6, Some 7, Some 8, Some 9, Some 2, Some 1, Some 3, Some 4],
      [Some 8, Some 9, Some 2, Some 1, Some 3, Some 4, Some 5, Some 6, Some 7],
      [Some 3, Some 4, Some 5, Some 6, Some 7, Some 8, Some 9, Some 2, Some 1],
      [Some 6, Some 7, Some 8, Some 9, Some 2, Some 1, Some 3, Some 4, Some 5],
      [Some 9, Some 2, Some 1, Some 3, Some 4, Some 5, Some 6, Some 7, Some 8]]"

lemma isCompletion_emptyBoard:
  "isCompletion emptyBoard solvedExample" "isCompletion emptyBoard solvedExample2"
  by code_simp+

lemma hasUniqueSolution_hintExample: "hasUniqueSolution hintExample"
  by code_simp

lemma hasUniqueSolution_conflictExample: "hasUniqueSolution conflictExample"
  by code_simp

lemma isBoardValid_conflictExample: "\<not> isBoardValid conflictExample"
  by code_simp

section \<open>sudokuGenerator.ts: random numbers\<close>

text \<open>
  \<^verbatim>\<open>Math.random()\<close> is modelled by the stream of the values it will return, passed in and
  handed back by every function that draws from it. Its documented range is the
  interval from 0 (inclusive) to 1 (exclusive): \<open>goodRandoms\<close>. \<open>randomInt x n\<close> is
  \<^verbatim>\<open>Math.floor(x * n)\<close>.
\<close>

type_synonym rng = "real stream"

definition goodRandoms :: "rng \<Rightarrow> bool" where
  "goodRandoms rs = (\<forall>x \<in> sset rs. 0 \<le> x \<and> x < 1)"

definition randomInt :: "real \<Rightarrow> nat \<Rightarrow> nat" where
  "randomInt x n = nat \<lfloor>x * real n\<rfloor>"

text \<open>
  \<open>shuffleArray\<close> (Fisher-Yates): \<open>shuffleLoop i\<close> is the loop
  \<^verbatim>\<open>for (i = length - 1; i > 0; i--)\<close> at index \<open>i\<close>; the destructuring swap reads both
  elements before it writes.
\<close>

fun shuffleLoop :: "nat \<Rightarrow> 'a list \<Rightarrow> rng \<Rightarrow> 'a list \<times> rng" where
  "shuffleLoop 0 newArray rs = (newArray, rs)"
| "shuffleLoop (Suc k) newArray rs =
     (let i = Suc k;
          j = randomInt (shd rs) (i + 1)
      in shuffleLoop k (newArray[i := newArray ! j, j := newArray ! i]) (stl rs))"

definition shuffleArray :: "'a list \<Rightarrow> rng \<Rightarrow> 'a list \<times> rng" where
  "shuffleArray array rs = shuffleLoop (length array - 1) array rs"

lemma goodRandoms_shd: "goodRandoms rs \<Longrightarrow> 0 \<le> shd rs \<and> shd rs < 1"
  by (simp add: goodRandoms_def shd_sset)

lemma goodRandoms_stl: "goodRandoms rs \<Longrightarrow> goodRandoms (stl rs)"
  by (auto simp: goodRandoms_def dest: stl_sset)

lemma goodRandoms_sdrop: "goodRandoms rs \<Longrightarrow> goodRandoms (sdrop n rs)"
  by (induct n arbitrary: rs) (simp_all add: goodRandoms_stl)

lemma randomInt_less:
  assumes "0 \<le> x" "x < 1" "0 < n"
  shows "randomInt x n < n"
proof -
  from assms have "x * real n < real n" by simp
  then have "\<lfloor>x * real n\<rfloor> < int n" by (simp add: floor_less_iff)
  moreover from assms have "0 \<le> \<lfloor>x * real n\<rfloor>" by simp
  ultimately show ?thesis unfolding randomInt_def by linarith
qed

lemma shuffleLoop_props:
  assumes "goodRandoms rs" "i < length xs"
  shows "mset (fst (shuffleLoop i xs rs)) = mset xs \<and> snd (shuffleLoop i xs rs) = sdrop i rs"
  using assms
proof (induct i arbitrary: xs rs)
  case 0
  then show ?case by simp
next
  case (Suc k)
  let ?j = "randomInt (shd rs) (Suc k + 1)"
  let ?ys = "xs[Suc k := xs ! ?j, ?j := xs ! Suc k]"
  from goodRandoms_shd[OF Suc(2)] have "?j < Suc k + 1" by (intro randomInt_less) simp_all
  with Suc(3) have j: "?j < length xs" by simp
  from mset_swap[OF j Suc(3)] have m: "mset ?ys = mset xs" .
  from Suc(3) have "k < length ?ys" by simp
  from Suc(1)[OF goodRandoms_stl[OF Suc(2)] this] m show ?case
    by (simp add: Let_def)
qed

lemma shuffleArray_props:
  assumes "goodRandoms rs" "xs \<noteq> []"
  shows "mset (fst (shuffleArray xs rs)) = mset xs"
    and "snd (shuffleArray xs rs) = sdrop (length xs - 1) rs"
  using shuffleLoop_props[OF assms(1), of "length xs - 1" xs] assms(2)
  by (simp_all add: shuffleArray_def)

lemma shuffleArray_set:
  assumes "goodRandoms rs" "xs \<noteq> []"
  shows "set (fst (shuffleArray xs rs)) = set xs"
    and "distinct (fst (shuffleArray xs rs)) = distinct xs"
    and "length (fst (shuffleArray xs rs)) = length xs"
  using shuffleArray_props(1)[OF assms]
  by (auto dest: mset_eq_setD mset_eq_imp_distinct_iff mset_eq_length)

section \<open>sudokuGenerator.ts: generateCompleteSudoku\<close>

text \<open>
  \<open>fillBoard\<close> is the recursive closure of \<open>generateCompleteSudoku\<close>; \<open>fillTry\<close> is its loop
  \<^verbatim>\<open>for (const num of numbers)\<close> over the candidates still to try. Both work on the
  board and the random stream and return them with the boolean. The recursion ends
  only when \<^verbatim>\<open>row === 9\<close> is reached, so the model bounds its depth: \<open>fuel\<close> is the number
  of nested calls still allowed, and \<open>None\<close> means that the bound was hit.
\<close>

fun fillBoard :: "nat \<Rightarrow> board \<Rightarrow> rng \<Rightarrow> nat \<Rightarrow> nat \<Rightarrow> (bool \<times> board \<times> rng) option"
  and fillTry ::
    "nat \<Rightarrow> board \<Rightarrow> rng \<Rightarrow> nat \<Rightarrow> nat \<Rightarrow> nat \<Rightarrow> nat \<Rightarrow> int list \<Rightarrow> (bool \<times> board \<times> rng) option"
  where
  "fillBoard 0 board rs row col = None"
| "fillBoard (Suc fuel) board rs row col =
     (if row = 9 then Some (True, board, rs)
      else
        (let nextRow = (if col = 8 then row + 1 else row);
             nextCol = (if col = 8 then 0 else col + 1);
             (numbers, rs') = shuffleArray [1, 2, 3, 4, 5, 6, 7, 8, 9] rs
         in fillTry fuel board rs' row col nextRow nextCol numbers))"
| "fillTry fuel board rs row col nextRow nextCol [] = Some (False, board, rs)"
| "fillTry fuel board rs row col nextRow nextCol (num # nums) =
     (if isValidMove board row col num then
        (case fillBoard fuel (setCell board row col (Some num)) rs nextRow nextCol of
           None \<Rightarrow> None
         | Some (True, board', rs') \<Rightarrow> Some (True, board', rs')
         | Some (False, board', rs') \<Rightarrow>
             fillTry fuel (setCell board' row col None) rs' row col nextRow nextCol nums)
      else fillTry fuel board rs row col nextRow nextCol nums)"

text \<open>
  \<open>generateCompleteSudoku\<close> builds the empty board
  (\<^verbatim>\<open>Array(9).fill(null).map(() => Array(9).fill(null))\<close>, \<open>emptyBoard\<close>), starts
  \<open>fillBoard\<close> at (0, 0) on it and returns
  the board whatever the boolean is. Each call moves one cell forward, so 82 nested
  calls reach \<^verbatim>\<open>row === 9\<close>.
\<close>

definition generateCompleteSudoku :: "rng \<Rightarrow> (board \<times> rng) option" where
  "generateCompleteSudoku rs =
     (case fillBoard 82 emptyBoard rs 0 0 of
        None \<Rightarrow> None
      | Some (ok, board, rs') \<Rightarrow> Some (board, rs'))"

subsection \<open>The filling search always completes the empty board\<close>

text \<open>
  \<open>filledUpTo board k\<close>: in row-major order the first \<open>k\<close> cells are filled and the others
  are empty. \<open>fillInv\<close> is what holds of the board whenever \<open>fillBoard\<close> is entered at
  the cell number \<open>k\<close>.
\<close>

definition filledUpTo :: "board \<Rightarrow> nat \<Rightarrow> bool" where
  "filledUpTo board k =
     (\<forall>r<9. \<forall>c<9. (9 * r + c < k \<longrightarrow> board ! r ! c \<noteq> None) \<and>
                  (k \<le> 9 * r + c \<longrightarrow> board ! r ! c = None))"

definition fillInv :: "board \<Rightarrow> nat \<Rightarrow> bool" where
  "fillInv board k = (wfBoard board \<and> noClash board \<and> digitsOnly board \<and> filledUpTo board k)"

text \<open>
  \<open>fillOutcome board rs none res\<close>: the call returned; it left the random stream after a
  whole number of shuffles of nine candidates (eight draws each); on success the board
  is a solved grid; on failure the board is the one the call received, and \<open>none\<close>
  (the statement that nothing was there to find) holds.
\<close>

definition fillOutcome ::
  "board \<Rightarrow> rng \<Rightarrow> bool \<Rightarrow> (bool \<times> board \<times> rng) option \<Rightarrow> bool" where
  "fillOutcome board rs none res =
     (\<exists>ok board' rs'. res = Some (ok, board', rs') \<and> goodRandoms rs' \<and>
        (\<exists>n. rs' = sdrop (8 * n) rs) \<and>
        (if ok then wfBoard board' \<and> allFilled board' \<and> noClash board' \<and> digitsOnly board'
         else board' = board \<and> none))"

lemma filledUpTo_empty_here:
  "filledUpTo board (9 * row + col) \<Longrightarrow> row < 9 \<Longrightarrow> col < 9 \<Longrightarrow> board ! row ! col = None"
  by (simp add: filledUpTo_def)

lemma filledUpTo_all: "filledUpTo board 81 \<Longrightarrow> allFilled board"
  unfolding filledUpTo_def allFilled_def
proof (intro allI impI)
  fix r c :: nat assume h: "\<forall>r<9. \<forall>c<9. (9 * r + c < 81 \<longrightarrow> board ! r ! c \<noteq> None) \<and>
      (81 \<le> 9 * r + c \<longrightarrow> board ! r ! c = None)" and rc: "r < 9" "c < 9"
  then have "9 * r + c < 81" by simp
  with h rc show "board ! r ! c \<noteq> None" by blast
qed

lemma cellIndex_inj:
  assumes "c < 9" "col < 9" "9 * r + c = 9 * row + (col::nat)"
  shows "r = row \<and> c = col"
proof -
  from assms(1) have "(9 * r + c) div 9 = r" "(9 * r + c) mod 9 = c" by simp_all
  moreover from assms(2) have "(9 * row + col) div 9 = row" "(9 * row + col) mod 9 = col"
    by simp_all
  ultimately show ?thesis using assms(3) by simp
qed

lemma filledUpTo_setCell:
  assumes wf: "wfBoard board" and rc: "row < 9" "col < 9"
    and f: "filledUpTo board (9 * row + col)"
  shows "filledUpTo (setCell board row col (Some num)) (Suc (9 * row + col))"
  unfolding filledUpTo_def
proof (intro allI impI conjI)
  fix r c :: nat assume b: "r < 9" "c < 9" and l: "9 * r + c < Suc (9 * row + col)"
  show "setCell board row col (Some num) ! r ! c \<noteq> None"
  proof (cases "r = row \<and> c = col")
    case True
    then show ?thesis by (simp add: nth_setCell_wf[OF wf rc])
  next
    case False
    with b rc cellIndex_inj[of c col r row] have "9 * r + c \<noteq> 9 * row + col" by blast
    with l have "9 * r + c < 9 * row + col" by simp
    with f b have "board ! r ! c \<noteq> None" by (simp add: filledUpTo_def)
    with False show ?thesis by (auto simp: nth_setCell_wf[OF wf rc])
  qed
next
  fix r c :: nat assume b: "r < 9" "c < 9" and l: "Suc (9 * row + col) \<le> 9 * r + c"
  then have "\<not> (r = row \<and> c = col)" by auto
  moreover from f b l have "board ! r ! c = None" by (simp add: filledUpTo_def)
  ultimately show "setCell board row col (Some num) ! r ! c = None"
    by (auto simp: nth_setCell_wf[OF wf rc])
qed

lemma fillInv_setCell:
  assumes i: "fillInv board (9 * row + col)" and rc: "row < 9" "col < 9"
    and mv: "isValidMove board row col num" and d: "1 \<le> num" "num \<le> 9"
  shows "fillInv (setCell board row col (Some num)) (Suc (9 * row + col))"
proof -
  from i have wf: "wfBoard board" and nc: "noClash board" and dg: "digitsOnly board"
    and f: "filledUpTo board (9 * row + col)" by (simp_all add: fillInv_def)
  from wfBoard_setCell[OF wf] noClash_setCell[OF wf nc rc mv] digitsOnly_setCell[OF wf dg rc d]
    filledUpTo_setCell[OF wf rc f]
  show ?thesis by (simp add: fillInv_def)
qed

lemma fillOutcomeI:
  assumes "res = Some (ok, board', rs')" "goodRandoms rs'" "rs' = sdrop (8 * n) rs"
    "ok \<Longrightarrow> wfBoard board' \<and> allFilled board' \<and> noClash board' \<and> digitsOnly board'"
    "\<not> ok \<Longrightarrow> board' = board \<and> none"
  shows "fillOutcome board rs none res"
  unfolding fillOutcome_def
  by (intro exI[of _ ok] exI[of _ board'] exI[of _ rs'] conjI assms(1,2) exI[of _ n] assms(3))
     (use assms(4,5) in simp)

lemma fillOutcomeE:
  assumes "fillOutcome board rs none res"
  obtains ok board' rs' n where "res = Some (ok, board', rs')" "goodRandoms rs'"
    "rs' = sdrop (8 * n) rs"
    "ok \<Longrightarrow> wfBoard board' \<and> allFilled board' \<and> noClash board' \<and> digitsOnly board'"
    "\<not> ok \<Longrightarrow> board' = board \<and> none"
proof -
  from assms obtain ok board' rs' where a: "res = Some (ok, board', rs')" "goodRandoms rs'"
    "\<exists>n. rs' = sdrop (8 * n) rs"
    "if ok then wfBoard board' \<and> allFilled board' \<and> noClash board' \<and> digitsOnly board'
     else board' = board \<and> none"
    unfolding fillOutcome_def by blast
  from a(3) obtain n where "rs' = sdrop (8 * n) rs" ..
  with a(1,2,4) that[of ok board' rs' n] show thesis by (cases ok) simp_all
qed

lemma fillTry_outcome:
  assumes step: "\<And>b rs. fillInv b (Suc (9 * row + col)) \<Longrightarrow> goodRandoms rs \<Longrightarrow>
      fillOutcome b rs (\<forall>s. \<not> fills b s) (fillBoard fuel b rs nextRow nextCol)"
    and rc: "row < 9" "col < 9" and i: "fillInv board (9 * row + col)"
  shows "goodRandoms rs \<Longrightarrow> \<forall>d \<in> set nums. 1 \<le> d \<and> d \<le> 9 \<Longrightarrow>
     fillOutcome board rs (\<forall>s. fills board s \<longrightarrow> s ! row ! col \<notin> Some ` set nums)
       (fillTry fuel board rs row col nextRow nextCol nums)"
proof (induct nums arbitrary: rs)
  case Nil
  show ?case
  proof (rule fillOutcomeI[of _ False board rs 0])
    show "fillTry fuel board rs row col nextRow nextCol [] = Some (False, board, rs)" by simp
    show "goodRandoms rs" by (rule Nil(1))
  qed simp_all
next
  case (Cons num nums)
  from i have wf: "wfBoard board" and e: "board ! row ! col = None"
    using rc by (simp_all add: fillInv_def filledUpTo_empty_here)
  from Cons(3) have d: "1 \<le> num" "num \<le> 9" and ds: "\<forall>d \<in> set nums. 1 \<le> d \<and> d \<le> 9"
    by simp_all
  show ?case
  proof (cases "isValidMove board row col num")
    case False
    then have no: "fills board s \<Longrightarrow> s ! row ! col \<noteq> Some num" for s
      using fills_step(1)[OF _ wf rc e] by blast
    from Cons(1)[OF Cons(2) ds] show ?thesis
    proof (rule fillOutcomeE)
      fix ok board' rs' n
      assume t: "fillTry fuel board rs row col nextRow nextCol nums = Some (ok, board', rs')"
        and g: "goodRandoms rs'" and r: "rs' = sdrop (8 * n) rs"
        and y: "ok \<Longrightarrow> wfBoard board' \<and> allFilled board' \<and> noClash board' \<and> digitsOnly board'"
        and n: "\<not> ok \<Longrightarrow> board' = board \<and>
            (\<forall>s. fills board s \<longrightarrow> s ! row ! col \<notin> Some ` set nums)"
      show ?thesis
      proof (rule fillOutcomeI[OF _ g r y])
        from False t show "fillTry fuel board rs row col nextRow nextCol (num # nums) =
            Some (ok, board', rs')" by simp
        show "board' = board \<and>
            (\<forall>s. fills board s \<longrightarrow> s ! row ! col \<notin> Some ` set (num # nums))" if "\<not> ok"
          using n[OF that] no by auto
      qed
    qed
  next
    case True
    let ?b1 = "setCell board row col (Some num)"
    from step[OF fillInv_setCell[OF i rc True d] Cons(2)] show ?thesis
    proof (rule fillOutcomeE)
      fix ok1 b1 rs1 n1
      assume r: "fillBoard fuel ?b1 rs nextRow nextCol = Some (ok1, b1, rs1)"
        and g1: "goodRandoms rs1" and rs1: "rs1 = sdrop (8 * n1) rs"
        and y1: "ok1 \<Longrightarrow> wfBoard b1 \<and> allFilled b1 \<and> noClash b1 \<and> digitsOnly b1"
        and no1: "\<not> ok1 \<Longrightarrow> b1 = ?b1 \<and> (\<forall>s. \<not> fills ?b1 s)"
      show ?thesis
      proof (cases ok1)
        case ok: True
        show ?thesis
        proof (rule fillOutcomeI[OF _ g1 rs1, of _ True])
          from True r ok show "fillTry fuel board rs row col nextRow nextCol (num # nums) =
              Some (True, b1, rs1)" by simp
          from y1[OF ok] show "wfBoard b1 \<and> allFilled b1 \<and> noClash b1 \<and> digitsOnly b1" .
        qed simp
      next
        case False
        with no1 have b1: "b1 = ?b1" and none: "\<not> fills ?b1 s" for s by simp_all
        from e wf rc have undone: "setCell b1 row col None = board"
          by (simp add: b1 setCell_setCell setCell_same)
        from True r False
        have eq: "fillTry fuel board rs row col nextRow nextCol (num # nums) =
            fillTry fuel board rs1 row col nextRow nextCol nums"
          by (simp add: undone)
        have no: "fills board s \<Longrightarrow> s ! row ! col \<noteq> Some num" for s
          using fills_step(2)[OF _ wf rc e] none by blast
        from Cons(1)[OF g1 ds] show ?thesis
        proof (rule fillOutcomeE)
          fix ok board' rs' n2
          assume t: "fillTry fuel board rs1 row col nextRow nextCol nums = Some (ok, board', rs')"
            and g: "goodRandoms rs'" and r': "rs' = sdrop (8 * n2) rs1"
            and y: "ok \<Longrightarrow> wfBoard board' \<and> allFilled board' \<and> noClash board' \<and> digitsOnly board'"
            and n: "\<not> ok \<Longrightarrow> board' = board \<and>
                (\<forall>s. fills board s \<longrightarrow> s ! row ! col \<notin> Some ` set nums)"
          from r' rs1 have drop: "rs' = sdrop (8 * (n1 + n2)) rs" by (simp add: distrib_left)
          show ?thesis
          proof (rule fillOutcomeI[OF _ g drop y])
            from eq t show "fillTry fuel board rs row col nextRow nextCol (num # nums) =
                Some (ok, board', rs')" by simp
            show "board' = board \<and>
                (\<forall>s. fills board s \<longrightarrow> s ! row ! col \<notin> Some ` set (num # nums))" if "\<not> ok"
              using n[OF that] no by auto
          qed
        qed
      qed
    qed
  qed
qed

lemma fillBoard_outcome:
  "(row < 9 \<and> col < 9) \<or> (row = 9 \<and> col = 0) \<Longrightarrow> fillInv board (9 * row + col) \<Longrightarrow>
     goodRandoms rs \<Longrightarrow> 82 \<le> fuel + (9 * row + col) \<Longrightarrow>
     fillOutcome board rs (\<forall>s. \<not> fills board s) (fillBoard fuel board rs row col)"
proof (induct fuel arbitrary: board rs row col)
  case 0
  then show ?case by auto
next
  case (Suc fuel)
  note pos = Suc(2) and inv = Suc(3) and good = Suc(4) and enough = Suc(5)
  show ?case
  proof (cases "row = 9")
    case True
    with pos inv have "allFilled board" by (auto simp: fillInv_def intro: filledUpTo_all)
    with inv have solved: "wfBoard board \<and> allFilled board \<and> noClash board \<and> digitsOnly board"
      by (simp add: fillInv_def)
    show ?thesis
    proof (rule fillOutcomeI[of _ True board rs 0])
      from True show "fillBoard (Suc fuel) board rs row col = Some (True, board, rs)" by simp
    qed (use good solved in simp_all)
  next
    case False
    with pos have rc: "row < 9" "col < 9" by simp_all
    define nextRow where "nextRow = (if col = 8 then row + 1 else row)"
    define nextCol where "nextCol = (if col = 8 then 0 else col + 1)"
    define numbers where "numbers = fst (shuffleArray [1, 2, 3, 4, 5, 6, 7, 8, 9::int] rs)"
    define rs1 where "rs1 = snd (shuffleArray [1, 2, 3, 4, 5, 6, 7, 8, 9::int] rs)"
    from False have eq: "fillBoard (Suc fuel) board rs row col =
        fillTry fuel board rs1 row col nextRow nextCol numbers"
      by (simp add: nextRow_def nextCol_def numbers_def rs1_def split_beta Let_def)
    from rc have next_pos: "(nextRow < 9 \<and> nextCol < 9) \<or> (nextRow = 9 \<and> nextCol = 0)"
      and next_k: "9 * nextRow + nextCol = Suc (9 * row + col)"
      by (auto simp: nextRow_def nextCol_def)
    from shuffleArray_set(1)[OF good, of "[1, 2, 3, 4, 5, 6, 7, 8, 9::int]"]
    have nums: "set numbers = {1, 2, 3, 4, 5, 6, 7, 8, 9}" by (simp add: numbers_def)
    have len: "length [1, 2, 3, 4, 5, 6, 7, 8, 9::int] - 1 = 8" by simp
    have rs1: "rs1 = sdrop 8 rs"
      unfolding rs1_def shuffleArray_props(2)[OF good list.distinct(2)] len ..
    have g1: "goodRandoms rs1" unfolding rs1 by (rule goodRandoms_sdrop[OF good])
    have step: "fillOutcome b rs' (\<forall>s. \<not> fills b s) (fillBoard fuel b rs' nextRow nextCol)"
      if "fillInv b (Suc (9 * row + col))" "goodRandoms rs'" for b rs'
      using Suc(1)[OF next_pos _ that(2)] that(1) enough by (simp add: next_k)
    from nums have digits: "\<forall>d \<in> set numbers. 1 \<le> d \<and> d \<le> 9" by auto
    from fillTry_outcome[OF step rc inv g1 digits] show ?thesis
    proof (rule fillOutcomeE)
      fix ok board' rs' n
      assume t: "fillTry fuel board rs1 row col nextRow nextCol numbers = Some (ok, board', rs')"
        and g: "goodRandoms rs'" and r: "rs' = sdrop (8 * n) rs1"
        and y: "ok \<Longrightarrow> wfBoard board' \<and> allFilled board' \<and> noClash board' \<and> digitsOnly board'"
        and n: "\<not> ok \<Longrightarrow> board' = board \<and>
            (\<forall>s. fills board s \<longrightarrow> s ! row ! col \<notin> Some ` set numbers)"
      from r rs1 have drop: "rs' = sdrop (8 * (Suc n)) rs" by (simp add: add.commute)
      show ?thesis
      proof (rule fillOutcomeI[OF _ g drop y])
        from eq t show "fillBoard (Suc fuel) board rs row col = Some (ok, board', rs')" by simp
        show "board' = board \<and> (\<forall>s. \<not> fills board s)" if "\<not> ok"
        proof (intro conjI allI notI)
          from n[OF that] show "board' = board" by simp
          fix s assume f: "fills board s"
          with rc obtain d where d: "s ! row ! col = Some d" "1 \<le> d" "d \<le> 9"
            unfolding fills_def allFilled_def digitsOnly_def by (metis not_Some_eq)
          then have "d \<in> {1, 2, 3, 4, 5, 6, 7, 8, 9}" by auto
          with d(1) nums have "s ! row ! col \<in> Some ` set numbers" by simp
          with n[OF that] f show False by blast
        qed
      qed
    qed
  qed
qed

lemma emptyBoard_nth: "r < 9 \<Longrightarrow> c < 9 \<Longrightarrow> emptyBoard ! r ! c = None"
  by (simp add: emptyBoard_def)

lemma wfBoard_emptyBoard: "wfBoard emptyBoard"
  by (simp add: emptyBoard_def wfBoard_def)

lemma fillInv_emptyBoard: "fillInv emptyBoard 0"
  by (simp add: fillInv_def wfBoard_emptyBoard noClash_def digitsOnly_def filledUpTo_def
      emptyBoard_nth)

lemma fills_emptyBoard: "fills emptyBoard solvedExample"
  using isCompletion_emptyBoard(1) by (simp add: isCompletion_iff)

text \<open>
  \<open>generateCompleteSudoku\<close> returns, and what it returns is a solved grid; the random
  stream has then moved by a whole number of shuffles.
\<close>

lemma generateCompleteSudoku_outcome:
  assumes "goodRandoms rs"
  obtains G rs' n where "generateCompleteSudoku rs = Some (G, rs')" "isGrid G"
    "isBoardSolved G" "goodRandoms rs'" "rs' = sdrop (8 * n) rs"
proof -
  have "fillOutcome emptyBoard rs (\<forall>s. \<not> fills emptyBoard s) (fillBoard 82 emptyBoard rs 0 0)"
    by (rule fillBoard_outcome) (use fillInv_emptyBoard assms in simp_all)
  then show thesis
  proof (rule fillOutcomeE)
    fix ok board' rs' n
    assume r: "fillBoard 82 emptyBoard rs 0 0 = Some (ok, board', rs')"
      and g: "goodRandoms rs'" and d: "rs' = sdrop (8 * n) rs"
      and y: "ok \<Longrightarrow> wfBoard board' \<and> allFilled board' \<and> noClash board' \<and> digitsOnly board'"
      and n: "\<not> ok \<Longrightarrow> board' = emptyBoard \<and> (\<forall>s. \<not> fills emptyBoard s)"
    from n fills_emptyBoard have ok by blast
    from y[OF this] have s: "isGrid board'" "isBoardSolved board'"
      by (simp_all add: isGrid_iff isBoardSolved_iff)
    from r have "generateCompleteSudoku rs = Some (board', rs')"
      by (simp add: generateCompleteSudoku_def)
    from that[OF this s g d] show thesis .
  qed
qed

lemma goodRandoms_sconst: "0 \<le> x \<Longrightarrow> x < 1 \<Longrightarrow> goodRandoms (sconst x)"
  by (simp add: goodRandoms_def)

text \<open>The bound only cuts the recursion off: a call that returns under one bound returns
  the same under every larger one.\<close>

lemma fill_more_fuel:
  "fillBoard fuel board rs row col = Some res \<Longrightarrow> fuel \<le> fuel' \<Longrightarrow>
     fillBoard fuel' board rs row col = Some res"
  "fillTry fuel board rs row col nextRow nextCol nums = Some res \<Longrightarrow> fuel \<le> fuel' \<Longrightarrow>
     fillTry fuel' board rs row col nextRow nextCol nums = Some res"
proof (induct fuel board rs row col and fuel board rs row col nextRow nextCol nums
    arbitrary: res fuel' and res fuel' rule: fillBoard_fillTry.induct)
  case (1 board rs row col)
  then show ?case by simp
next
  case (2 fuel board rs row col)
  from 2(3) obtain f where f: "fuel' = Suc f" "fuel \<le> f" by (cases fuel') simp_all
  show ?case
  proof (cases "row = 9")
    case True
    with 2(2) f show ?thesis by simp
  next
    case False
    with 2(2) 2(1)[OF False refl refl refl prod.collapse _ f(2)] f(1) show ?thesis
      by (simp add: split_beta Let_def)
  qed
next
  case (3 fuel board rs row col nextRow nextCol)
  then show ?case by simp
next
  case (4 fuel board rs row col nextRow nextCol num nums)
  show ?case
  proof (cases "isValidMove board row col num")
    case False
    with 4(4) 4(3)[OF False _ 4(5)] show ?thesis by simp
  next
    case True
    from 4(4) True obtain ok b1 rs1 where
      r: "fillBoard fuel (setCell board row col (Some num)) rs nextRow nextCol = Some (ok, b1, rs1)"
      by (cases "fillBoard fuel (setCell board row col (Some num)) rs nextRow nextCol") auto
    from 4(1)[OF True r 4(5)]
    have r': "fillBoard fuel' (setCell board row col (Some num)) rs nextRow nextCol =
        Some (ok, b1, rs1)" .
    show ?thesis
    proof (cases ok)
      case True
      with 4(4) \<open>isValidMove board row col num\<close> r have "res = (True, b1, rs1)" by simp
      with \<open>isValidMove board row col num\<close> r' True show ?thesis by simp
    next
      case False
      with 4(4) True r
      have "fillTry fuel (setCell b1 row col None) rs1 row col nextRow nextCol nums = Some res"
        by simp
      moreover from False have "ok = False" by simp
      ultimately have "fillTry fuel' (setCell b1 row col None) rs1 row col nextRow nextCol nums =
          Some res"
        using 4(2)[OF True r refl _ refl _ 4(5)] by blast
      with True r' False show ?thesis by simp
    qed
  qed
qed

section \<open>sudokuGenerator.ts: removing cells\<close>

datatype Difficulty = EASY | MEDIUM | HARD | EXPERT

text \<open>
  \<open>getBoxConstraints\<close> and \<open>getCluesRange\<close> return the object \<^verbatim>\<open>{ min, max }\<close> as the pair
  \<open>(min, max)\<close>. The \<^verbatim>\<open>default\<close> branch of each \<^verbatim>\<open>switch\<close> has no value of the enum left.
\<close>

fun getBoxConstraints :: "Difficulty \<Rightarrow> nat \<times> nat" where
  "getBoxConstraints EASY = (3, 6)"
| "getBoxConstraints MEDIUM = (2, 5)"
| "getBoxConstraints HARD = (1, 4)"
| "getBoxConstraints EXPERT = (0, 3)"

fun getCluesRange :: "Difficulty \<Rightarrow> nat \<times> nat" where
  "getCluesRange EASY = (36, 41)"
| "getCluesRange MEDIUM = (27, 32)"
| "getCluesRange HARD = (22, 27)"
| "getCluesRange EXPERT = (17, 22)"

definition countFilledInBox :: "board \<Rightarrow> nat \<Rightarrow> nat \<Rightarrow> nat" where
  "countFilledInBox board boxRow boxCol =
     (let startRow = boxRow * 3; startCol = boxCol * 3
      in length (filter (\<lambda>(i, j). board ! (startRow + i) ! (startCol + j) \<noteq> None)
                   (List.product [0..<3] [0..<3])))"

text \<open>
  The state of the two removal passes: the puzzle, the counters \<^verbatim>\<open>boxRemovals\<close> and
  \<^verbatim>\<open>totalRemoved\<close>. \<open>removeOne\<close> is the body they share: the cell is set to null and
  both counters go up by one.
\<close>

type_synonym removal = "board \<times> nat list list \<times> nat"

definition removeOne :: "removal \<Rightarrow> nat \<Rightarrow> nat \<Rightarrow> nat \<Rightarrow> nat \<Rightarrow> removal" where
  "removeOne st row col boxRow boxCol =
     (case st of (puzzle, boxRemovals, totalRemoved) \<Rightarrow>
        (setCell puzzle row col None,
         setCell boxRemovals boxRow boxCol (boxRemovals ! boxRow ! boxCol + 1),
         totalRemoved + 1))"

text \<open>
  \<^verbatim>\<open>cellsByBox\<close>: the scan over the 81 cells pushes each cell onto the list of its box;
  then the list of every box is shuffled, box by box.
\<close>

definition groupCellsByBox :: "(nat \<times> nat) list list list" where
  "groupCellsByBox =
     foldl (\<lambda>cellsByBox (row, col).
              (let boxRow = row div 3; boxCol = col div 3
               in setCell cellsByBox boxRow boxCol (cellsByBox ! boxRow ! boxCol @ [(row, col)])))
       (replicate 3 (replicate 3 [])) (List.product [0..<9] [0..<9])"

definition shuffleBoxes ::
  "(nat \<times> nat) list list list \<Rightarrow> rng \<Rightarrow> (nat \<times> nat) list list list \<times> rng" where
  "shuffleBoxes cellsByBox rs =
     foldl (\<lambda>(cellsByBox, rs) (boxRow, boxCol).
              (let (cells, rs') = shuffleArray (cellsByBox ! boxRow ! boxCol) rs
               in (setCell cellsByBox boxRow boxCol cells, rs')))
       (cellsByBox, rs) (List.product [0..<3] [0..<3])"

text \<open>First pass: in every box the first \<^verbatim>\<open>minRemovedPerBox\<close> cells of its list go.\<close>

definition firstPass :: "(nat \<times> nat) list list list \<Rightarrow> nat \<Rightarrow> removal \<Rightarrow> removal" where
  "firstPass cellsByBox minRemovedPerBox st =
     foldl (\<lambda>st (boxRow, boxCol).
              (let cells = cellsByBox ! boxRow ! boxCol;
                   toRemove = minRemovedPerBox
               in foldl (\<lambda>st (row, col). removeOne st row col boxRow boxCol) st
                    (take toRemove cells)))
       st (List.product [0..<3] [0..<3])"

text \<open>
  Second pass: the cells left in each list, tagged with their box, are pooled and
  shuffled; the loop stops (\<^verbatim>\<open>break\<close>) once the target is reached and skips
  (\<^verbatim>\<open>continue\<close>) a cell whose box is at its cap.
\<close>

definition poolCells ::
  "(nat \<times> nat) list list list \<Rightarrow> nat \<Rightarrow> (nat \<times> nat \<times> nat \<times> nat) list" where
  "poolCells cellsByBox minRemovedPerBox =
     concat (map (\<lambda>(boxRow, boxCol).
                    map (\<lambda>(row, col). (row, col, boxRow, boxCol))
                      (drop minRemovedPerBox (cellsByBox ! boxRow ! boxCol)))
               (List.product [0..<3] [0..<3]))"

fun secondPass :: "nat \<Rightarrow> nat \<Rightarrow> (nat \<times> nat \<times> nat \<times> nat) list \<Rightarrow> removal \<Rightarrow> removal" where
  "secondPass targetEmpty maxRemovedPerBox [] st = st"
| "secondPass targetEmpty maxRemovedPerBox ((row, col, boxRow, boxCol) # rest) st =
     (case st of (puzzle, boxRemovals, totalRemoved) \<Rightarrow>
        if totalRemoved \<ge> targetEmpty then st
        else if boxRemovals ! boxRow ! boxCol \<ge> maxRemovedPerBox
          then secondPass targetEmpty maxRemovedPerBox rest st
        else secondPass targetEmpty maxRemovedPerBox rest
               (removeOne st row col boxRow boxCol))"

definition removeCellsImproved :: "board \<Rightarrow> Difficulty \<Rightarrow> rng \<Rightarrow> board \<times> rng" where
  "removeCellsImproved board difficulty rs =
     (let puzzle = copyBoard board;
          (minPerBox, maxPerBox) = getBoxConstraints difficulty;
          (minTotal, maxTotal) = getCluesRange difficulty;
          targetClues = minTotal + randomInt (shd rs) (maxTotal - minTotal + 1);
          targetEmpty = 81 - targetClues;
          boxRemovals = replicate 3 (replicate 3 0);
          (cellsByBox, rs1) = shuffleBoxes groupCellsByBox (stl rs);
          totalRemoved = 0;
          maxRemovedPerBox = 9 - minPerBox;
          minRemovedPerBox = 9 - maxPerBox;
          st1 = firstPass cellsByBox minRemovedPerBox (puzzle, boxRemovals, totalRemoved);
          allCells = poolCells cellsByBox minRemovedPerBox;
          (shuffledCells, rs2) = shuffleArray allCells rs1;
          (puzzle', boxRemovals', totalRemoved') =
             secondPass targetEmpty maxRemovedPerBox shuffledCells st1
      in (puzzle', rs2))"

definition generateSudokuPuzzle :: "Difficulty \<Rightarrow> rng \<Rightarrow> (board \<times> rng) option" where
  "generateSudokuPuzzle difficulty rs =
     (case generateCompleteSudoku rs of
        None \<Rightarrow> None
      | Some (completeSudoku, rs1) \<Rightarrow> Some (removeCellsImproved completeSudoku difficulty rs1))"

text \<open>
  \<open>generateSymmetricPuzzle\<close>: \<open>removeSymmetric\<close> is the function from the complete grid
  on, and \<open>symmetricLoop\<close> (below) its removal loop over the shuffled positions, on the
  puzzle, \<^verbatim>\<open>boxRemovals\<close> and \<^verbatim>\<open>removed\<close>.
\<close>

definition symmetricPositions :: "(nat \<times> nat) list" where
  "symmetricPositions =
     [(row, col). row \<leftarrow> [0..<5], col \<leftarrow> [0..<9],
        \<not> (row = 4 \<and> col = 4) \<and> (row < 4 \<or> (row = 4 \<and> col < 4))]"

text \<open>
  \<open>pairBlocked\<close> is the test before \<^verbatim>\<open>continue\<close>, \<open>removePair\<close> the removal of a cell and
  its mirror image: the two assignments, the two increments (one after the other, so a
  box that holds both cells is counted twice) and \<^verbatim>\<open>removed += 2\<close>.
\<close>

definition pairBlocked :: "nat list list \<Rightarrow> nat \<Rightarrow> nat \<Rightarrow> nat \<Rightarrow> bool" where
  "pairBlocked boxRemovals maxRemovedPerBox row col =
     (let boxRow1 = row div 3; boxCol1 = col div 3;
          boxRow2 = (8 - row) div 3; boxCol2 = (8 - col) div 3
      in boxRemovals ! boxRow1 ! boxCol1 \<ge> maxRemovedPerBox \<or>
         boxRemovals ! boxRow2 ! boxCol2 \<ge> maxRemovedPerBox)"

definition removePair :: "removal \<Rightarrow> nat \<Rightarrow> nat \<Rightarrow> removal" where
  "removePair st row col =
     (case st of (puzzle, boxRemovals, removed) \<Rightarrow>
        (let boxRow1 = row div 3; boxCol1 = col div 3;
             boxRow2 = (8 - row) div 3; boxCol2 = (8 - col) div 3;
             puzzle1 = setCell puzzle row col None;
             puzzle2 = setCell puzzle1 (8 - row) (8 - col) None;
             boxRemovals1 = setCell boxRemovals boxRow1 boxCol1
                              (boxRemovals ! boxRow1 ! boxCol1 + 1);
             boxRemovals2 = setCell boxRemovals1 boxRow2 boxCol2
                              (boxRemovals1 ! boxRow2 ! boxCol2 + 1)
         in (puzzle2, boxRemovals2, removed + 2)))"

fun symmetricLoop :: "nat \<Rightarrow> nat \<Rightarrow> (nat \<times> nat) list \<Rightarrow> removal \<Rightarrow> removal" where
  "symmetricLoop cellsToRemove maxRemovedPerBox [] st = st"
| "symmetricLoop cellsToRemove maxRemovedPerBox ((row, col) # rest) st =
     (case st of (puzzle, boxRemovals, removed) \<Rightarrow>
        if removed \<ge> cellsToRemove then st
        else if pairBlocked boxRemovals maxRemovedPerBox row col
          then symmetricLoop cellsToRemove maxRemovedPerBox rest st
        else symmetricLoop cellsToRemove maxRemovedPerBox rest (removePair st row col))"

definition removeSymmetric :: "board \<Rightarrow> Difficulty \<Rightarrow> rng \<Rightarrow> removal \<times> rng" where
  "removeSymmetric completeSudoku difficulty rs =
     (let puzzle = copyBoard completeSudoku;
          (minTotal, maxTotal) = getCluesRange difficulty;
          targetClues = minTotal + randomInt (shd rs) (maxTotal - minTotal + 1);
          targetEmpty = 81 - targetClues;
          cellsToRemove = (if targetEmpty mod 2 = 0 then targetEmpty else targetEmpty - 1);
          boxRemovals = replicate 3 (replicate 3 0);
          (minPerBox, maxPerBox) = getBoxConstraints difficulty;
          maxRemovedPerBox = 9 - minPerBox;
          positions = symmetricPositions;
          (shuffledPositions, rs1) = shuffleArray positions (stl rs);
          removed = 0
      in (symmetricLoop cellsToRemove maxRemovedPerBox shuffledPositions
            (puzzle, boxRemovals, removed), rs1))"

definition generateSymmetricPuzzle :: "Difficulty \<Rightarrow> rng \<Rightarrow> (board \<times> rng) option" where
  "generateSymmetricPuzzle difficulty rs =
     (case generateCompleteSudoku rs of
        None \<Rightarrow> None
      | Some (completeSudoku, rs1) \<Rightarrow>
          (case removeSymmetric completeSudoku difficulty rs1 of
             ((puzzle, boxRemovals, removed), rs2) \<Rightarrow> Some (puzzle, rs2)))"

text \<open>
  \<open>generateBalancedPuzzle\<close>: \<open>balancedLoop\<close> is the \<^verbatim>\<open>while (attempts < maxAttempts)\<close> loop
  with the fallback after it.
\<close>

definition hasCompleteBox :: "board \<Rightarrow> bool" where
  "hasCompleteBox puzzle =
     (\<exists>boxRow \<in> set [0..<3]. \<exists>boxCol \<in> set [0..<3]. countFilledInBox puzzle boxRow boxCol = 9)"

function balancedLoop :: "nat \<Rightarrow> Difficulty \<Rightarrow> rng \<Rightarrow> (board \<times> rng) option" where
  "balancedLoop attempts difficulty rs =
     (let maxAttempts = 10 in
      if attempts < maxAttempts then
        (case generateSudokuPuzzle difficulty rs of
           None \<Rightarrow> None
         | Some (puzzle, rs') \<Rightarrow>
             if \<not> hasCompleteBox puzzle then Some (puzzle, rs')
             else balancedLoop (attempts + 1) difficulty rs')
      else generateSudokuPuzzle difficulty rs)"
  by pat_completeness auto
termination balancedLoop
  by (relation "measure (\<lambda>(attempts, difficulty, rs). 10 - attempts)") auto

declare balancedLoop.simps [simp del]

definition generateBalancedPuzzle :: "Difficulty \<Rightarrow> rng \<Rightarrow> (board \<times> rng) option" where
  "generateBalancedPuzzle difficulty rs = balancedLoop 0 difficulty rs"

subsection \<open>Removal only clears cells\<close>

text \<open>\<open>clearedFrom board puzzle\<close>: every cell of the 9x9 \<open>puzzle\<close> is empty or as in \<open>board\<close>.\<close>

definition clearedFrom :: "board \<Rightarrow> board \<Rightarrow> bool" where
  "clearedFrom board puzzle =
     (wfBoard puzzle \<and>
      (\<forall>r<9. \<forall>c<9. puzzle ! r ! c = None \<or> puzzle ! r ! c = board ! r ! c))"

lemma clearedFrom_refl: "wfBoard board \<Longrightarrow> clearedFrom board board"
  by (simp add: clearedFrom_def)

lemma clearedFrom_setCell:
  assumes "clearedFrom board puzzle"
  shows "clearedFrom board (setCell puzzle row col None)"
  using assms unfolding clearedFrom_def
  by (auto simp: nth_setCell wfBoard_setCell)

lemma clearedFrom_removeOne:
  "clearedFrom board (fst st) \<Longrightarrow> clearedFrom board (fst (removeOne st row col boxRow boxCol))"
  by (cases st) (simp add: removeOne_def clearedFrom_setCell)

lemma clearedFrom_removePair:
  "clearedFrom board (fst st) \<Longrightarrow> clearedFrom board (fst (removePair st row col))"
  by (cases st) (simp add: removePair_def Let_def clearedFrom_setCell)

lemma clearedFrom_foldl:
  assumes "\<And>st x. clearedFrom board (fst st) \<Longrightarrow> clearedFrom board (fst (f st x))"
  shows "clearedFrom board (fst st) \<Longrightarrow> clearedFrom board (fst (foldl f st xs))"
  by (induct xs arbitrary: st) (simp_all add: assms)

lemma clearedFrom_firstPass:
  "clearedFrom board (fst st) \<Longrightarrow> clearedFrom board (fst (firstPass cellsByBox m st))"
  unfolding firstPass_def
  by (rule clearedFrom_foldl)
     (auto simp: Let_def split_beta intro!: clearedFrom_foldl clearedFrom_removeOne)

lemma clearedFrom_secondPass:
  "clearedFrom board (fst st) \<Longrightarrow> clearedFrom board (fst (secondPass t m cells st))"
  by (induct t m cells st rule: secondPass.induct)
     (auto simp: clearedFrom_removeOne split: prod.splits)

lemma clearedFrom_symmetricLoop:
  "clearedFrom board (fst st) \<Longrightarrow> clearedFrom board (fst (symmetricLoop t m cells st))"
  by (induct t m cells st rule: symmetricLoop.induct)
     (auto simp: clearedFrom_removePair split: prod.splits)

lemma clearedFrom_removeCellsImproved:
  "wfBoard board \<Longrightarrow> clearedFrom board (fst (removeCellsImproved board difficulty rs))"
  unfolding removeCellsImproved_def Let_def split_beta copyBoard_id
  by (simp add: clearedFrom_secondPass[unfolded split_beta] clearedFrom_firstPass clearedFrom_refl)

lemma clearedFrom_removeSymmetric:
  "wfBoard board \<Longrightarrow> clearedFrom board (fst (fst (removeSymmetric board difficulty rs)))"
  unfolding removeSymmetric_def Let_def split_beta copyBoard_id
  by (simp add: clearedFrom_symmetricLoop clearedFrom_refl)

text \<open>A board cleared from a solved grid is a conflict-free grid, and the solved grid is
  one of its completions.\<close>

lemma clearedFrom_solved:
  assumes c: "clearedFrom board puzzle" and g: "isGrid board" and s: "isBoardSolved board"
  shows "isGrid puzzle" "isBoardValid puzzle" "isCompletion puzzle board"
proof -
  from c have wf: "wfBoard puzzle"
    and cell: "\<And>r c. r < 9 \<Longrightarrow> c < 9 \<Longrightarrow> puzzle ! r ! c = None \<or> puzzle ! r ! c = board ! r ! c"
    by (simp_all add: clearedFrom_def)
  from g have d: "digitsOnly board" and wfb: "wfBoard board" by (simp_all add: isGrid_iff)
  from s have n: "noClash board" and a: "allFilled board" by (simp_all add: isBoardSolved_iff)
  have agree: "agreesOn puzzle board"
    unfolding agreesOn_def using cell by force
  have "digitsOnly puzzle"
    unfolding digitsOnly_def using cell d[unfolded digitsOnly_def] by (metis option.distinct(1))
  with wf show "isGrid puzzle" by (simp add: isGrid_iff)
  have "noClash puzzle"
    unfolding noClash_def
  proof (intro allI impI notI, elim conjE)
    fix r c r' c' :: nat
    assume b: "r < 9" "c < 9" "r' < 9" "c' < 9" and u: "sameUnit r c r' c'"
      "(r', c') \<noteq> (r, c)" and f: "puzzle ! r ! c \<noteq> None"
      and same: "puzzle ! r' ! c' = puzzle ! r ! c"
    from cell[OF b(1,2)] cell[OF b(3,4)] f same
    have "board ! r ! c = puzzle ! r ! c" "board ! r' ! c' = puzzle ! r ! c" by auto
    with noClashD[OF n b u] f show False by simp
  qed
  then show "isBoardValid puzzle" by (simp add: isBoardValid_iff)
  from wfb a n d agree show "isCompletion puzzle board"
    by (simp add: isCompletion_iff fills_def)
qed

subsection \<open>The random stream after the generators\<close>

lemma shuffleLoop_rng: "snd (shuffleLoop i xs rs) = sdrop i rs"
  by (induct i arbitrary: xs rs) (simp_all add: Let_def)

lemma goodRandoms_shuffleArray: "goodRandoms rs \<Longrightarrow> goodRandoms (snd (shuffleArray xs rs))"
  by (simp add: shuffleArray_def shuffleLoop_rng goodRandoms_sdrop del: sdrop_simps)

lemma goodRandoms_foldl:
  assumes "\<And>st x. goodRandoms (snd st) \<Longrightarrow> goodRandoms (snd (f st x))"
  shows "goodRandoms (snd st) \<Longrightarrow> goodRandoms (snd (foldl f st xs))"
  by (induct xs arbitrary: st) (simp_all add: assms)

lemma goodRandoms_shuffleBoxes:
  "goodRandoms rs \<Longrightarrow> goodRandoms (snd (shuffleBoxes cellsByBox rs))"
  unfolding shuffleBoxes_def
  by (rule goodRandoms_foldl) (auto simp: split_beta Let_def goodRandoms_shuffleArray)

lemma goodRandoms_removeCellsImproved:
  "goodRandoms rs \<Longrightarrow> goodRandoms (snd (removeCellsImproved board difficulty rs))"
  unfolding removeCellsImproved_def Let_def split_beta
  by (simp add: goodRandoms_shuffleArray goodRandoms_shuffleBoxes goodRandoms_stl)

subsection \<open>What every generated puzzle is\<close>

lemma generateSudokuPuzzle_outcome:
  assumes "goodRandoms rs"
  obtains G rs1 where "generateCompleteSudoku rs = Some (G, rs1)" "isGrid G" "isBoardSolved G"
    "goodRandoms rs1"
    "generateSudokuPuzzle difficulty rs = Some (removeCellsImproved G difficulty rs1)"
proof -
  from generateCompleteSudoku_outcome[OF assms] obtain G rs1 n where
    g: "generateCompleteSudoku rs = Some (G, rs1)" "isGrid G" "isBoardSolved G" "goodRandoms rs1"
    by blast
  then have "generateSudokuPuzzle difficulty rs = Some (removeCellsImproved G difficulty rs1)"
    by (simp add: generateSudokuPuzzle_def)
  with g that show thesis by blast
qed

lemma generateSymmetricPuzzle_outcome:
  assumes "goodRandoms rs"
  obtains G rs1 where "generateCompleteSudoku rs = Some (G, rs1)" "isGrid G" "isBoardSolved G"
    "goodRandoms rs1"
    "generateSymmetricPuzzle difficulty rs =
       Some (fst (fst (removeSymmetric G difficulty rs1)), snd (removeSymmetric G difficulty rs1))"
proof -
  from generateCompleteSudoku_outcome[OF assms] obtain G rs1 n where
    g: "generateCompleteSudoku rs = Some (G, rs1)" "isGrid G" "isBoardSolved G" "goodRandoms rs1"
    by blast
  then have "generateSymmetricPuzzle difficulty rs =
       Some (fst (fst (removeSymmetric G difficulty rs1)), snd (removeSymmetric G difficulty rs1))"
    by (simp add: generateSymmetricPuzzle_def split_beta)
  with g that show thesis by blast
qed

lemma generateSudokuPuzzle_cleared:
  assumes "goodRandoms rs"
  obtains G rs1 P rs2 where "generateCompleteSudoku rs = Some (G, rs1)" "isGrid G"
    "isBoardSolved G" "generateSudokuPuzzle difficulty rs = Some (P, rs2)" "clearedFrom G P"
    "goodRandoms rs2"
proof (rule generateSudokuPuzzle_outcome[OF assms, of difficulty])
  fix G rs1
  assume g: "generateCompleteSudoku rs = Some (G, rs1)" "isGrid G" "isBoardSolved G"
    "goodRandoms rs1"
    and p: "generateSudokuPuzzle difficulty rs = Some (removeCellsImproved G difficulty rs1)"
  from g(2) have "wfBoard G" by (simp add: isGrid_iff)
  from clearedFrom_removeCellsImproved[OF this] goodRandoms_removeCellsImproved[OF g(4)] p g
  show thesis by (intro that[of G rs1 "fst (removeCellsImproved G difficulty rs1)"
        "snd (removeCellsImproved G difficulty rs1)"]) simp_all
qed

lemma generateSymmetricPuzzle_cleared:
  assumes "goodRandoms rs"
  obtains G rs1 P rs2 where "generateCompleteSudoku rs = Some (G, rs1)" "isGrid G"
    "isBoardSolved G" "generateSymmetricPuzzle difficulty rs = Some (P, rs2)" "clearedFrom G P"
proof (rule generateSymmetricPuzzle_outcome[OF assms, of difficulty])
  fix G rs1
  assume g: "generateCompleteSudoku rs = Some (G, rs1)" "isGrid G" "isBoardSolved G"
    "goodRandoms rs1"
    and p: "generateSymmetricPuzzle difficulty rs =
       Some (fst (fst (removeSymmetric G difficulty rs1)), snd (removeSymmetric G difficulty rs1))"
  from g(2) have "wfBoard G" by (simp add: isGrid_iff)
  from clearedFrom_removeSymmetric[OF this] p g
  show thesis by (intro that[of G rs1 "fst (fst (removeSymmetric G difficulty rs1))"
        "snd (removeSymmetric G difficulty rs1)"]) simp_all
qed

lemma balancedLoop_valid:
  "goodRandoms rs \<Longrightarrow>
     \<exists>P rs'. balancedLoop attempts difficulty rs = Some (P, rs') \<and> isGrid P \<and> isBoardValid P"
proof (induct attempts difficulty rs rule: balancedLoop.induct)
  case (1 attempts difficulty rs)
  from generateSudokuPuzzle_cleared[OF 1(2), of difficulty]
  obtain G rs1 P rs2 where g: "isGrid G" "isBoardSolved G"
    and p: "generateSudokuPuzzle difficulty rs = Some (P, rs2)" and c: "clearedFrom G P"
    and r: "goodRandoms rs2" by blast
  note ok = clearedFrom_solved(1,2)[OF c g]
  show ?case
  proof (cases "attempts < 10 \<and> hasCompleteBox P")
    case True
    with 1(1)[OF refl _ p refl _ r] p show ?thesis
      by (subst balancedLoop.simps) (simp add: Let_def)
  next
    case False
    with p ok show ?thesis
      by (subst balancedLoop.simps) (auto simp: Let_def)
  qed
qed

text \<open>Solving a board cleared from a solved grid.\<close>

lemma cleared_roundtrip:
  assumes c: "clearedFrom G P" and g: "isGrid G" and s: "isBoardSolved G"
  shows "fst (solveSudoku P)" "isBoardValid (snd (solveSudoku P))"
    "hasUniqueSolution P \<Longrightarrow> snd (solveSudoku P) = G"
proof -
  note p = clearedFrom_solved[OF c g s]
  from solveSudoku_correct(1)[OF p(1,2)] p(3) show found: "fst (solveSudoku P)" by blast
  from solveSudoku_correct(2)[OF p(1,2) found]
  have comp: "isCompletion P (snd (solveSudoku P))" .
  then show "isBoardValid (snd (solveSudoku P))"
    by (simp add: isCompletion_def isBoardSolved_def)
  assume "hasUniqueSolution P"
  with hasUniqueSolution_correct[OF p(1,2)] comp p(3) show "snd (solveSudoku P) = G"
    by metis
qed

subsection \<open>The symmetric removal\<close>

text \<open>\<open>mirrored puzzle\<close>: the empty cells of the 9x9 \<open>puzzle\<close> are invariant under the half
  turn that sends \<open>(r, c)\<close> to \<open>(8 - r, 8 - c)\<close>.\<close>

definition mirrored :: "board \<Rightarrow> bool" where
  "mirrored puzzle =
     (wfBoard puzzle \<and>
      (\<forall>r<9. \<forall>c<9. puzzle ! r ! c = None \<longleftrightarrow> puzzle ! (8 - r) ! (8 - c) = None))"

lemma symmetricPositions_all: "\<forall>(row, col) \<in> set symmetricPositions. row < 5 \<and> col < 9"
  by code_simp

lemma symmetricPositions_range:
  "(row, col) \<in> set symmetricPositions \<Longrightarrow> row < 5 \<and> col < 9"
  using symmetricPositions_all by blast

lemma mirrored_full:
  assumes "wfBoard board" "allFilled board"
  shows "mirrored board"
  unfolding mirrored_def
proof (intro conjI allI impI)
  show "wfBoard board" by fact
next
  fix r c :: nat assume b: "r < 9" "c < 9"
  then have "8 - r < 9" "8 - c < 9" by simp_all
  with assms(2) b have "board ! r ! c \<noteq> None" "board ! (8 - r) ! (8 - c) \<noteq> None"
    by (simp_all add: allFilled_def)
  then show "board ! r ! c = None \<longleftrightarrow> board ! (8 - r) ! (8 - c) = None" by auto
qed

lemma half_turn_eq:
  assumes "r < 9" "row < (9::nat)"
  shows "8 - r = row \<longleftrightarrow> r = 8 - row" "8 - r = 8 - row \<longleftrightarrow> r = row"
  using assms by arith+

lemma nth_setCell_pair:
  assumes wf: "wfBoard puzzle" and rc: "row < 9" "col < 9"
  shows "setCell (setCell puzzle row col None) (8 - row) (8 - col) None ! r ! c = None \<longleftrightarrow>
      (r = row \<and> c = col) \<or> (r = 8 - row \<and> c = 8 - col) \<or> puzzle ! r ! c = None"
proof -
  from rc have rc': "8 - row < 9" "8 - col < 9" by simp_all
  show ?thesis
    unfolding nth_setCell_wf[OF wfBoard_setCell[OF wf] rc'] nth_setCell_wf[OF wf rc]
    by (cases "r = 8 - row \<and> c = 8 - col"; cases "r = row \<and> c = col") (simp_all, blast)
qed

lemma mirrored_removePair:
  assumes m: "mirrored (fst st)" and rc: "row < 9" "col < 9"
  shows "mirrored (fst (removePair st row col))"
proof -
  obtain puzzle boxRemovals removed where st: "st = (puzzle, boxRemovals, removed)"
    by (cases st)
  let ?p = "setCell (setCell puzzle row col None) (8 - row) (8 - col) None"
  note m' = m[unfolded st fst_conv mirrored_def]
  from m' have wf: "wfBoard puzzle" ..
  note cell = nth_setCell_pair[OF wf rc]
  have sym: "?p ! r ! c = None \<longleftrightarrow> ?p ! (8 - r) ! (8 - c) = None" if b: "r < 9" "c < 9" for r c
  proof -
    have old: "puzzle ! r ! c = None \<longleftrightarrow> puzzle ! (8 - r) ! (8 - c) = None"
      by (rule conjunct2[OF m', rule_format, OF b])
    have "(r = 8 - row \<and> c = 8 - col) \<or> (r = row \<and> c = col) \<or> puzzle ! r ! c = None \<longleftrightarrow>
        (r = row \<and> c = col) \<or> (r = 8 - row \<and> c = 8 - col) \<or> puzzle ! r ! c = None"
      by (rule iffI; elim disjE; simp)
    then have "?p ! (8 - r) ! (8 - c) = None \<longleftrightarrow>
        (r = row \<and> c = col) \<or> (r = 8 - row \<and> c = 8 - col) \<or> puzzle ! r ! c = None"
      unfolding cell half_turn_eq[OF b(1) rc(1)] half_turn_eq[OF b(2) rc(2)] old .
    then show ?thesis unfolding cell[of r c] by (rule sym)
  qed
  have "mirrored ?p"
    unfolding mirrored_def
  proof (intro conjI allI impI)
    show "wfBoard ?p" by (intro wfBoard_setCell wf)
  next
    fix r c :: nat assume "r < 9" "c < 9"
    then show "?p ! r ! c = None \<longleftrightarrow> ?p ! (8 - r) ! (8 - c) = None" by (rule sym)
  qed
  with st show ?thesis by (simp add: removePair_def Let_def)
qed

lemma mirrored_symmetricLoop:
  "mirrored (fst st) \<Longrightarrow> \<forall>(row, col) \<in> set cells. row < 9 \<and> col < 9 \<Longrightarrow>
     mirrored (fst (symmetricLoop t m cells st))"
proof (induct t m cells st rule: symmetricLoop.induct)
  case (1 t m st)
  then show ?case by simp
next
  case (2 t m row col rest st)
  obtain puzzle boxRemovals removed where st: "st = (puzzle, boxRemovals, removed)"
    by (cases st)
  from 2(4) have rc: "row < 9" "col < 9"
    and rest: "\<forall>(row, col) \<in> set rest. row < 9 \<and> col < 9" by simp_all
  show ?case
  proof (cases "removed \<ge> t")
    case True
    with 2(3) st show ?thesis by simp
  next
    case False
    show ?thesis
    proof (cases "pairBlocked boxRemovals m row col")
      case True
      with False st 2(1)[OF st[symmetric] refl False _ 2(3) rest] show ?thesis by simp
    next
      case blocked: False
      from mirrored_removePair[OF 2(3) rc]
      have "mirrored (fst (removePair st row col))" .
      from 2(2)[OF st[symmetric] refl False _ this rest] blocked False st show ?thesis
        by simp
    qed
  qed
qed

lemma mirrored_removeSymmetric:
  assumes "wfBoard board" "allFilled board" "goodRandoms rs"
  shows "mirrored (fst (fst (removeSymmetric board difficulty rs)))"
proof -
  have ne: "symmetricPositions \<noteq> []" by code_simp
  have "\<forall>(row, col) \<in> set (fst (shuffleArray symmetricPositions (stl rs))). row < 9 \<and> col < 9"
    unfolding shuffleArray_set(1)[OF goodRandoms_stl[OF assms(3)] ne]
    using symmetricPositions_all by fastforce
  from mirrored_symmetricLoop[OF _ this] mirrored_full[OF assms(1,2)] show ?thesis
    unfolding removeSymmetric_def Let_def split_beta copyBoard_id by simp
qed

subsection \<open>The removal pattern does not depend on the digits\<close>

text \<open>\<open>sameMask p q\<close>: the 9x9 boards \<open>p\<close> and \<open>q\<close> have the same empty cells.\<close>

definition sameMask :: "board \<Rightarrow> board \<Rightarrow> bool" where
  "sameMask p q =
     (wfBoard p \<and> wfBoard q \<and> (\<forall>r<9. \<forall>c<9. p ! r ! c = None \<longleftrightarrow> q ! r ! c = None))"

lemma sameMask_full:
  assumes "wfBoard p" "wfBoard q" "allFilled p" "allFilled q"
  shows "sameMask p q"
  unfolding sameMask_def
proof (intro conjI allI impI)
  fix r c :: nat assume "r < 9" "c < 9"
  with assms(3,4) have "p ! r ! c \<noteq> None" "q ! r ! c \<noteq> None"
    by (simp_all add: allFilled_def)
  then show "p ! r ! c = None \<longleftrightarrow> q ! r ! c = None" by auto
qed (rule assms)+

lemma sameMask_setCell:
  assumes "sameMask p q"
  shows "sameMask (setCell p row col None) (setCell q row col None)"
proof -
  from assms have wf: "wfBoard p" "wfBoard q"
    and m: "\<And>r c. r < 9 \<Longrightarrow> c < 9 \<Longrightarrow> p ! r ! c = None \<longleftrightarrow> q ! r ! c = None"
    unfolding sameMask_def by blast+
  have "setCell p row col None ! r ! c = None \<longleftrightarrow> setCell q row col None ! r ! c = None"
    if b: "r < 9" "c < 9" for r c
  proof (cases "r = row \<and> c = col")
    case True
    with wf b show ?thesis by (simp add: nth_setCell wfBoard_def)
  next
    case False
    then have "setCell p row col None ! r ! c = p ! r ! c"
      "setCell q row col None ! r ! c = q ! r ! c"
      by (auto simp: nth_setCell)
    then show ?thesis by (simp only: m[OF b])
  qed
  then show ?thesis
    unfolding sameMask_def by (intro conjI allI impI wfBoard_setCell wf)
qed

lemma sameMask_removePair:
  assumes "sameMask p q"
  shows "sameMask (fst (removePair (p, counters) row col)) (fst (removePair (q, counters) row col))"
    and "snd (removePair (p, counters) row col) = snd (removePair (q, counters) row col)"
  using sameMask_setCell[OF sameMask_setCell[OF assms]]
  by (cases counters; simp add: removePair_def Let_def)+

lemma sameMask_symmetricLoop:
  "sameMask p q \<Longrightarrow>
     sameMask (fst (symmetricLoop t m cells (p, counters)))
       (fst (symmetricLoop t m cells (q, counters))) \<and>
     snd (symmetricLoop t m cells (p, counters)) = snd (symmetricLoop t m cells (q, counters))"
proof (induct cells arbitrary: p q counters)
  case Nil
  then show ?case by simp
next
  case (Cons cell cells)
  obtain row col where cell: "cell = (row, col)" by (cases cell)
  obtain boxRemovals removed where counters: "counters = (boxRemovals, removed)"
    by (cases counters)
  show ?case
  proof (cases "removed \<ge> t \<or> pairBlocked boxRemovals m row col")
    case True
    with Cons cell counters show ?thesis by auto
  next
    case False
    obtain p' c' where p': "removePair (p, counters) row col = (p', c')"
      by (cases "removePair (p, counters) row col")
    obtain q' d' where q': "removePair (q, counters) row col = (q', d')"
      by (cases "removePair (q, counters) row col")
    from sameMask_removePair[OF Cons(2), of counters row col] p' q'
    have "sameMask p' q'" "d' = c'" by simp_all
    with Cons(1)[of p' q' c'] False cell counters p' q' show ?thesis by simp
  qed
qed

lemma countFilledInBox_sameMask:
  assumes "sameMask p q" "boxRow < 3" "boxCol < 3"
  shows "countFilledInBox p boxRow boxCol = countFilledInBox q boxRow boxCol"
proof -
  from assms(1) have m: "\<And>r c. r < 9 \<Longrightarrow> c < 9 \<Longrightarrow> p ! r ! c = None \<longleftrightarrow> q ! r ! c = None"
    unfolding sameMask_def by blast
  have "filter (\<lambda>(i, j). p ! (boxRow * 3 + i) ! (boxCol * 3 + j) \<noteq> None)
          (List.product [0..<3] [0..<3]) =
        filter (\<lambda>(i, j). q ! (boxRow * 3 + i) ! (boxCol * 3 + j) \<noteq> None)
          (List.product [0..<3] [0..<3])"
  proof (rule filter_cong[OF refl])
    fix x assume "x \<in> set (List.product [0..<3] [0..<3])"
    then obtain i j where x: "x = (i, j)" "i < 3" "j < 3" by auto
    with assms(2,3) have "boxRow * 3 + i < 9" "boxCol * 3 + j < 9" by simp_all
    from m[OF this] x(1)
    show "(case x of (i, j) \<Rightarrow> p ! (boxRow * 3 + i) ! (boxCol * 3 + j) \<noteq> None) =
          (case x of (i, j) \<Rightarrow> q ! (boxRow * 3 + i) ! (boxCol * 3 + j) \<noteq> None)"
      by (simp del: not_None_eq)
  qed
  then show ?thesis by (simp add: countFilledInBox_def Let_def del: not_None_eq)
qed

subsection \<open>Running a shuffle on given draws\<close>

text \<open>\<open>shuffleLoop\<close> on the first draws of the stream, given as a list: the same loop.\<close>

fun shuffleDraws :: "real list \<Rightarrow> nat \<Rightarrow> 'a list \<Rightarrow> 'a list" where
  "shuffleDraws draws 0 newArray = newArray"
| "shuffleDraws [] (Suc k) newArray = newArray"
| "shuffleDraws (x # draws) (Suc k) newArray =
     (let i = Suc k;
          j = randomInt x (i + 1)
      in shuffleDraws draws k (newArray[i := newArray ! j, j := newArray ! i]))"

lemma shuffleLoop_draws: "fst (shuffleLoop i xs rs) = shuffleDraws (stake i rs) i xs"
  by (induct i arbitrary: xs rs) (simp_all add: Let_def)

text \<open>
  A random stream on which \<open>generateSymmetricPuzzle\<close> empties the centre box beyond its
  cap: the values 1/2 and 1/4 in turn.
\<close>

definition centreStream :: rng where
  "centreStream = cycle [1 / 2, 1 / 4]"

lemma goodRandoms_centreStream: "goodRandoms centreStream"
  by (simp add: goodRandoms_def centreStream_def)

lemma centreStream_sdrop: "sdrop (8 * n) centreStream = centreStream"
proof -
  have len: "length [1 / 2, 1 / 4::real] = 2" by simp
  have "(8 * n) mod length [1 / 2, 1 / 4::real] = 0" unfolding len by presburger
  then show ?thesis unfolding centreStream_def by (intro sdrop_cycle_eq_mod_0) simp_all
qed

lemma centreStream_shd: "shd centreStream = 1 / 2"
  by (simp add: centreStream_def)

lemma centreStream_stake: "stake 39 (stl centreStream) =
    concat (replicate 19 [1 / 4, 1 / 2]) @ [1 / 4]"
proof -
  have tail: "stl centreStream = cycle [1 / 4, 1 / 2]" by (simp add: centreStream_def)
  have len: "length [1 / 4, 1 / 2::real] = 2" by simp
  have num: "(39::nat) div 2 = 19" "(39::nat) mod 2 = 1" by simp_all
  have one: "take 1 [1 / 4, 1 / 2::real] = [1 / 4]" by simp
  have "stake 39 (cycle [1 / 4, 1 / 2::real]) =
      concat (replicate (39 div length [1 / 4, 1 / 2::real]) [1 / 4, 1 / 2]) @
      take (39 mod length [1 / 4, 1 / 2::real]) [1 / 4, 1 / 2]"
    by (rule stake_cycle) simp
  then show ?thesis unfolding tail len num one .
qed

text \<open>The order in which the shuffle on \<open>centreStream\<close> leaves the 40 positions.\<close>

definition centreOrder :: "(nat \<times> nat) list" where
  "centreOrder =
     [(3, 5), (0, 0), (2, 6), (2, 2), (3, 1), (0, 1), (2, 4), (4, 0), (3, 3), (0, 2),
      (4, 2), (2, 8), (2, 5), (0, 3), (3, 0), (3, 7), (3, 4), (0, 4), (3, 8), (2, 3),
      (4, 3), (0, 5), (1, 2), (2, 7), (1, 3), (0, 6), (1, 4), (3, 2), (1, 5), (0, 7),
      (1, 6), (3, 6), (1, 7), (0, 8), (1, 8), (4, 1), (2, 0), (1, 0), (2, 1), (1, 1)]"

lemma centre_shuffle:
  "shuffleDraws (concat (replicate 19 [1 / 4, 1 / 2]) @ [1 / 4]) 39 symmetricPositions =
     centreOrder"
  by code_simp

lemma symmetricPositions_length: "length symmetricPositions = 40"
  by code_simp

lemma removeSymmetric_centreStream:
  "fst (removeSymmetric board MEDIUM centreStream) =
     symmetricLoop 50 7 centreOrder (board, replicate 3 (replicate 3 0), 0)"
proof -
  have draw: "randomInt (1 / 2) (32 - 27 + 1) = 3" by (simp add: randomInt_def)
  have order: "fst (shuffleArray symmetricPositions (stl centreStream)) = centreOrder"
  proof -
    have "(40::nat) - 1 = 39" by simp
    then show ?thesis
      unfolding shuffleArray_def symmetricPositions_length shuffleLoop_draws
      by (simp only: centreStream_stake centre_shuffle)
  qed
  show ?thesis
    unfolding removeSymmetric_def Let_def split_beta copyBoard_id fst_conv snd_conv
      getCluesRange.simps getBoxConstraints.simps centreStream_shd draw order
    by simp
qed

lemma centre_box_solvedExample:
  "countFilledInBox
     (fst (symmetricLoop 50 7 centreOrder (solvedExample, replicate 3 (replicate 3 0), 0)))
     1 1 = 1"
  by code_simp

subsection \<open>Counting clues\<close>

text \<open>
  The clue count of a puzzle is the number of its non-empty cells. It and
  \<open>countFilledInBox\<close> are the sizes of sets of cells: \<open>filledCells\<close> are the non-empty
  cells of a board, \<open>boxCells\<close> the cells of a box.
\<close>

definition clueCount :: "board \<Rightarrow> nat" where
  "clueCount board =
     length (filter (\<lambda>(row, col). board ! row ! col \<noteq> None) (List.product [0..<9] [0..<9]))"

definition gridCells :: "(nat \<times> nat) set" where
  "gridCells = {0..<9} \<times> {0..<9}"

definition filledCells :: "board \<Rightarrow> (nat \<times> nat) set" where
  "filledCells board = {(r, c). r < 9 \<and> c < 9 \<and> board ! r ! c \<noteq> None}"

definition boxCells :: "nat \<Rightarrow> nat \<Rightarrow> (nat \<times> nat) set" where
  "boxCells boxRow boxCol = {(r, c). r < 9 \<and> c < 9 \<and> r div 3 = boxRow \<and> c div 3 = boxCol}"

lemma finite_gridCells: "finite gridCells"
  by (simp add: gridCells_def)

lemma card_gridCells: "card gridCells = 81"
  by (simp add: gridCells_def)

lemma filledCells_subset: "filledCells board \<subseteq> gridCells"
  by (auto simp: filledCells_def gridCells_def)

lemma boxCells_subset: "boxCells boxRow boxCol \<subseteq> gridCells"
  by (auto simp: boxCells_def gridCells_def)

lemma finite_boxCells: "finite (boxCells boxRow boxCol)"
  by (rule finite_subset[OF boxCells_subset finite_gridCells])

lemma boxCells_disjoint:
  "(boxRow, boxCol) \<noteq> (boxRow', boxCol') \<Longrightarrow> boxCells boxRow boxCol \<inter> boxCells boxRow' boxCol' = {}"
  by (auto simp: boxCells_def)

lemma in_boxCells:
  "row < 9 \<Longrightarrow> col < 9 \<Longrightarrow>
     (row, col) \<in> boxCells boxRow boxCol \<longleftrightarrow> boxRow = row div 3 \<and> boxCol = col div 3"
  by (auto simp: boxCells_def)

lemma card_boxCells:
  assumes "boxRow < 3" "boxCol < 3"
  shows "card (boxCells boxRow boxCol) = 9"
proof -
  have "boxCells boxRow boxCol = {3 * boxRow..<3 * boxRow + 3} \<times> {3 * boxCol..<3 * boxCol + 3}"
  proof (intro set_eqI iffI)
    fix x assume "x \<in> boxCells boxRow boxCol"
    then obtain r c where x: "x = (r, c)" "r div 3 = boxRow" "c div 3 = boxCol"
      by (auto simp: boxCells_def)
    have "3 * (r div 3) \<le> r" "r < 3 * (r div 3) + 3" "3 * (c div 3) \<le> c" "c < 3 * (c div 3) + 3"
      by presburger+
    with x show "x \<in> {3 * boxRow..<3 * boxRow + 3} \<times> {3 * boxCol..<3 * boxCol + 3}" by simp
  next
    fix x assume "x \<in> {3 * boxRow..<3 * boxRow + 3} \<times> {3 * boxCol..<3 * boxCol + 3}"
    then obtain r c where x: "x = (r, c)" "3 * boxRow \<le> r" "r < 3 * boxRow + 3"
      "3 * boxCol \<le> c" "c < 3 * boxCol + 3" by auto
    from x(2,3) have "r div 3 = boxRow" by presburger
    moreover from x(4,5) have "c div 3 = boxCol" by presburger
    moreover from x(3,5) assms have "r < 9" "c < 9" by simp_all
    ultimately show "x \<in> boxCells boxRow boxCol" using x(1) by (simp add: boxCells_def)
  qed
  then show ?thesis by simp
qed

lemma clueCount_card: "clueCount board = card (filledCells board)"
proof -
  have d: "distinct (List.product [0..<9] [0..<9])" by (simp add: distinct_product)
  have "{x. case x of (row, col) \<Rightarrow> board ! row ! col \<noteq> None} \<inter> set (List.product [0..<9] [0..<9])
      = filledCells board"
    by (auto simp: filledCells_def)
  with distinct_length_filter[OF d, of "\<lambda>(row, col). board ! row ! col \<noteq> None"]
  show ?thesis by (simp add: clueCount_def del: not_None_eq)
qed

lemma countFilledInBox_card:
  assumes b: "boxRow < 3" "boxCol < 3"
  shows "countFilledInBox board boxRow boxCol = card (filledCells board \<inter> boxCells boxRow boxCol)"
proof -
  let ?P = "\<lambda>(i, j). board ! (boxRow * 3 + i) ! (boxCol * 3 + j) \<noteq> None"
  let ?f = "\<lambda>(i :: nat, j :: nat). (boxRow * 3 + i, boxCol * 3 + j)"
  let ?A = "{x. ?P x} \<inter> set (List.product [0..<3] [0..<3])"
  have d: "distinct (List.product [0..<3] [0..<3])" by (simp add: distinct_product)
  have inj: "inj_on ?f ?A" by (auto simp: inj_on_def)
  have "?f ` ?A = filledCells board \<inter> boxCells boxRow boxCol"
  proof (intro set_eqI iffI)
    fix x assume "x \<in> ?f ` ?A"
    then obtain y where y: "y \<in> ?A" "x = ?f y" by blast
    obtain i j where yij: "y = (i, j)" by (cases y)
    from y yij have ij: "i < 3" "j < 3" "board ! (boxRow * 3 + i) ! (boxCol * 3 + j) \<noteq> None"
      and x: "x = (boxRow * 3 + i, boxCol * 3 + j)" by (simp_all del: not_None_eq)
    from ij(1,2) b have "boxRow * 3 + i < 9" "boxCol * 3 + j < 9"
      "(boxRow * 3 + i) div 3 = boxRow" "(boxCol * 3 + j) div 3 = boxCol" by simp_all
    with ij(3) x show "x \<in> filledCells board \<inter> boxCells boxRow boxCol"
      by (simp add: filledCells_def boxCells_def del: not_None_eq)
  next
    fix x assume "x \<in> filledCells board \<inter> boxCells boxRow boxCol"
    then obtain r c where x: "x = (r, c)" and rc: "r < 9" "c < 9" "board ! r ! c \<noteq> None"
      "r div 3 = boxRow" "c div 3 = boxCol"
      by (auto simp: filledCells_def boxCells_def)
    have e: "boxRow * 3 + r mod 3 = r" "boxCol * 3 + c mod 3 = c"
      unfolding rc(4,5)[symmetric] by simp_all
    have "(r mod 3, c mod 3) \<in> ?A" using rc(3) e by (simp del: not_None_eq)
    moreover have "?f (r mod 3, c mod 3) = x" using e x by simp
    ultimately show "x \<in> ?f ` ?A" by (rule rev_image_eqI[OF _ sym])
  qed
  with card_image[OF inj] have "card ?A = card (filledCells board \<inter> boxCells boxRow boxCol)"
    by simp
  with distinct_length_filter[OF d, of ?P] show ?thesis
    by (simp add: countFilledInBox_def Let_def del: not_None_eq)
qed

lemma filledCells_setCell_None:
  assumes "wfBoard puzzle" "row < 9" "col < 9"
  shows "filledCells (setCell puzzle row col None) = filledCells puzzle - {(row, col)}"
  unfolding filledCells_def
  by (auto simp: nth_setCell_wf[OF assms] split: if_splits)

text \<open>The nine boxes partition the grid.\<close>

lemma card_by_boxes:
  assumes "S \<subseteq> gridCells"
  shows "card S = (\<Sum>(boxRow, boxCol) \<in> {0..<3} \<times> {0..<3}. card (S \<inter> boxCells boxRow boxCol))"
proof -
  let ?B = "{0..<3::nat} \<times> {0..<3::nat}"
  let ?A = "\<lambda>b. S \<inter> boxCells (fst b) (snd b)"
  have fin: "finite S" by (rule finite_subset[OF assms finite_gridCells])
  have "S = (\<Union>b\<in>?B. ?A b)"
  proof (intro set_eqI iffI)
    fix x assume x: "x \<in> S"
    with assms obtain r c where rc: "x = (r, c)" "r < 9" "c < 9" by (auto simp: gridCells_def)
    from rc(2,3) have "r div 3 < 3" "c div 3 < 3"
      by (simp_all add: less_mult_imp_div_less)
    with rc have "(r div 3, c div 3) \<in> ?B" "x \<in> boxCells (r div 3) (c div 3)"
      by (simp_all add: boxCells_def)
    with x show "x \<in> (\<Union>b\<in>?B. ?A b)" by (intro UN_I[of "(r div 3, c div 3)"]) simp_all
  qed auto
  then have "card S = card (\<Union>b\<in>?B. ?A b)" by simp
  also have "\<dots> = (\<Sum>b\<in>?B. card (?A b))"
  proof (rule card_UN_disjoint)
    show "finite ?B" by simp
    show "\<forall>i\<in>?B. finite (?A i)" using fin by simp
    show "\<forall>i\<in>?B. \<forall>j\<in>?B. i \<noteq> j \<longrightarrow> ?A i \<inter> ?A j = {}"
    proof (intro ballI impI)
      fix i j :: "nat \<times> nat" assume "i \<noteq> j"
      then have "(fst i, snd i) \<noteq> (fst j, snd j)" by simp
      from boxCells_disjoint[OF this] show "?A i \<inter> ?A j = {}" by blast
    qed
  qed
  finally show ?thesis by (simp add: split_beta)
qed

subsection \<open>The state of the removal passes\<close>

text \<open>
  \<open>removedState S st\<close>: the cells in \<open>S\<close> are the empty cells of the puzzle, the counter
  of each box is the number of cells of \<open>S\<close> in that box, and \<^verbatim>\<open>totalRemoved\<close> is the size
  of \<open>S\<close>.
\<close>

definition boxShape :: "'a list list \<Rightarrow> bool" where
  "boxShape boxRemovals = (length boxRemovals = 3 \<and> (\<forall>r<3. length (boxRemovals ! r) = 3))"

definition removedState :: "(nat \<times> nat) set \<Rightarrow> removal \<Rightarrow> bool" where
  "removedState S st =
     (case st of (puzzle, boxRemovals, totalRemoved) \<Rightarrow>
        wfBoard puzzle \<and> boxShape boxRemovals \<and> S \<subseteq> gridCells \<and>
        (\<forall>r<9. \<forall>c<9. puzzle ! r ! c = None \<longleftrightarrow> (r, c) \<in> S) \<and>
        (\<forall>boxRow<3. \<forall>boxCol<3.
           boxRemovals ! boxRow ! boxCol = card (S \<inter> boxCells boxRow boxCol)) \<and>
        totalRemoved = card S)"

lemma boxShape_setCell: "boxShape boxRemovals \<Longrightarrow> boxShape (setCell boxRemovals boxRow boxCol v)"
  unfolding boxShape_def setCell_def
  by (cases "boxRow < 3") (auto simp: nth_list_update)

lemma removedState_start:
  assumes "wfBoard board" "allFilled board"
  shows "removedState {} (board, replicate 3 (replicate 3 0), 0)"
proof -
  have "\<forall>boxRow<3. \<forall>boxCol<3. replicate 3 (replicate 3 (0::nat)) ! boxRow ! boxCol = 0"
    by simp
  moreover from assms(2) have "\<forall>r<9. \<forall>c<9. board ! r ! c = None \<longleftrightarrow> (r, c) \<in> {}"
    by (simp add: allFilled_def)
  ultimately show ?thesis
    using assms(1) by (simp add: removedState_def boxShape_def del: not_None_eq)
qed

lemma removedState_removeOne:
  assumes st: "removedState S st" and rc: "row < 9" "col < 9" and new: "(row, col) \<notin> S"
  shows "removedState (insert (row, col) S) (removeOne st row col (row div 3) (col div 3))"
proof -
  obtain p brm T where s: "st = (p, brm, T)" by (cases st)
  from st s have wf: "wfBoard p" and sh: "boxShape brm" and sub: "S \<subseteq> gridCells"
    and cells: "\<And>r c. r < 9 \<Longrightarrow> c < 9 \<Longrightarrow> p ! r ! c = None \<longleftrightarrow> (r, c) \<in> S"
    and cnt: "\<And>br bc. br < 3 \<Longrightarrow> bc < 3 \<Longrightarrow> brm ! br ! bc = card (S \<inter> boxCells br bc)"
    and tot: "T = card S"
    by (simp_all add: removedState_def)
  have fin: "finite S" by (rule finite_subset[OF sub finite_gridCells])
  from rc have b: "row div 3 < 3" "col div 3 < 3" by (simp_all add: less_mult_imp_div_less)
  let ?brm = "setCell brm (row div 3) (col div 3) (brm ! (row div 3) ! (col div 3) + 1)"
  have 1: "wfBoard (setCell p row col None)" by (rule wfBoard_setCell[OF wf])
  have 2: "boxShape ?brm" by (rule boxShape_setCell[OF sh])
  have 3: "insert (row, col) S \<subseteq> gridCells" using sub rc by (simp add: gridCells_def)
  have 4: "\<forall>r<9. \<forall>c<9. setCell p row col None ! r ! c = None \<longleftrightarrow> (r, c) \<in> insert (row, col) S"
  proof (intro allI impI)
    fix r c :: nat assume "r < 9" "c < 9"
    from cells[OF this] show
      "setCell p row col None ! r ! c = None \<longleftrightarrow> (r, c) \<in> insert (row, col) S"
      by (auto simp: nth_setCell_wf[OF wf rc])
  qed
  have 5: "\<forall>br<3. \<forall>bc<3. ?brm ! br ! bc = card (insert (row, col) S \<inter> boxCells br bc)"
  proof (intro allI impI)
    fix br bc :: nat assume bb: "br < 3" "bc < 3"
    from sh b have len: "row div 3 < length brm" "col div 3 < length (brm ! (row div 3))"
      by (simp_all add: boxShape_def)
    show "?brm ! br ! bc = card (insert (row, col) S \<inter> boxCells br bc)"
    proof (cases "br = row div 3 \<and> bc = col div 3")
      case True
      then have "(row, col) \<in> boxCells br bc" using rc by (simp add: in_boxCells)
      then have "insert (row, col) S \<inter> boxCells br bc = insert (row, col) (S \<inter> boxCells br bc)"
        by blast
      moreover have "(row, col) \<notin> S \<inter> boxCells br bc" using new by simp
      moreover have "finite (S \<inter> boxCells br bc)" using fin by simp
      ultimately have "card (insert (row, col) S \<inter> boxCells br bc) = card (S \<inter> boxCells br bc) + 1"
        by simp
      with True cnt[OF bb] len show ?thesis by (simp add: nth_setCell)
    next
      case False
      then have "(row, col) \<notin> boxCells br bc" using rc by (simp add: in_boxCells)
      then have "insert (row, col) S \<inter> boxCells br bc = S \<inter> boxCells br bc" by blast
      with False cnt[OF bb] show ?thesis by (auto simp: nth_setCell)
    qed
  qed
  have 6: "T + 1 = card (insert (row, col) S)" using fin new tot by simp
  from 1 2 3 4 5 6 show ?thesis
    unfolding s removeOne_def removedState_def prod.case by (intro conjI)
qed

text \<open>The counts of a puzzle in such a state.\<close>

lemma removedState_counts:
  assumes "removedState S (puzzle, boxRemovals, totalRemoved)"
  shows "clueCount puzzle = 81 - card S"
    and "boxRow < 3 \<Longrightarrow> boxCol < 3 \<Longrightarrow>
       countFilledInBox puzzle boxRow boxCol = 9 - card (S \<inter> boxCells boxRow boxCol)"
    and "totalRemoved = card S"
proof -
  from assms have sub: "S \<subseteq> gridCells"
    and cells: "\<And>r c. r < 9 \<Longrightarrow> c < 9 \<Longrightarrow> puzzle ! r ! c = None \<longleftrightarrow> (r, c) \<in> S"
    and tot: "totalRemoved = card S"
    by (simp_all add: removedState_def)
  have fin: "finite S" by (rule finite_subset[OF sub finite_gridCells])
  have f: "filledCells puzzle = gridCells - S"
  proof (intro set_eqI iffI)
    fix x assume "x \<in> filledCells puzzle"
    then obtain r c where x: "x = (r, c)" "r < 9" "c < 9" "puzzle ! r ! c \<noteq> None"
      by (auto simp: filledCells_def simp del: not_None_eq)
    with cells[OF x(2,3)] show "x \<in> gridCells - S" by (simp add: gridCells_def)
  next
    fix x assume "x \<in> gridCells - S"
    then obtain r c where x: "x = (r, c)" "r < 9" "c < 9" "(r, c) \<notin> S"
      by (auto simp: gridCells_def)
    with cells[OF x(2,3)] show "x \<in> filledCells puzzle"
      by (simp add: filledCells_def del: not_None_eq)
  qed
  show "totalRemoved = card S" by (rule tot)
  show "clueCount puzzle = 81 - card S"
    unfolding clueCount_card f by (simp add: card_Diff_subset[OF fin sub] card_gridCells)
  show "countFilledInBox puzzle boxRow boxCol = 9 - card (S \<inter> boxCells boxRow boxCol)"
    if b: "boxRow < 3" "boxCol < 3"
  proof -
    have "filledCells puzzle \<inter> boxCells boxRow boxCol = boxCells boxRow boxCol - S"
      unfolding f using boxCells_subset[of boxRow boxCol] by blast
    then have "countFilledInBox puzzle boxRow boxCol = card (boxCells boxRow boxCol - S)"
      by (simp add: countFilledInBox_card[OF b])
    also have "\<dots> = card (boxCells boxRow boxCol) - card (boxCells boxRow boxCol \<inter> S)"
      by (rule card_Diff_subset_Int) (simp add: finite_boxCells)
    finally show ?thesis by (simp add: card_boxCells[OF b] Int_commute)
  qed
qed

subsection \<open>The first pass\<close>

lemma removedState_box:
  assumes "removedState S st" "set cs \<subseteq> boxCells boxRow boxCol" "distinct cs" "set cs \<inter> S = {}"
  shows "removedState (S \<union> set cs)
     (foldl (\<lambda>st (row, col). removeOne st row col boxRow boxCol) st cs)"
  using assms
proof (induct cs arbitrary: S st)
  case Nil
  then show ?case by simp
next
  case (Cons x cs)
  obtain row col where x: "x = (row, col)" by (cases x)
  from Cons(3) x have rc: "row < 9" "col < 9" and b: "boxRow = row div 3" "boxCol = col div 3"
    by (auto simp: boxCells_def)
  from Cons(5) x have new: "(row, col) \<notin> S" by simp
  have 1: "removedState (insert (row, col) S) (removeOne st row col boxRow boxCol)"
    unfolding b by (rule removedState_removeOne[OF Cons(2) rc new])
  from Cons(3) have 2: "set cs \<subseteq> boxCells boxRow boxCol" by simp
  from Cons(4) have 3: "distinct cs" by simp
  from Cons(4,5) x have 4: "set cs \<inter> insert (row, col) S = {}" by auto
  have "insert (row, col) S \<union> set cs = S \<union> set (x # cs)" using x by simp
  with Cons(1)[OF 1 2 3 4] show ?case by (simp add: x)
qed

definition firstCells :: "(nat \<times> nat) list list list \<Rightarrow> nat \<Rightarrow> (nat \<times> nat) list \<Rightarrow> (nat \<times> nat) set" where
  "firstCells cellsByBox m boxes =
     (\<Union>(boxRow, boxCol) \<in> set boxes. set (take m (cellsByBox ! boxRow ! boxCol)))"

lemma removedState_boxes:
  assumes "removedState S st" "distinct boxes"
    and "\<And>boxRow boxCol. (boxRow, boxCol) \<in> set boxes \<Longrightarrow>
        set (cellsByBox ! boxRow ! boxCol) \<subseteq> boxCells boxRow boxCol \<and>
        distinct (cellsByBox ! boxRow ! boxCol) \<and> boxCells boxRow boxCol \<inter> S = {}"
  shows "removedState (S \<union> firstCells cellsByBox m boxes)
     (foldl (\<lambda>st (boxRow, boxCol).
              (let cells = cellsByBox ! boxRow ! boxCol;
                   toRemove = m
               in foldl (\<lambda>st (row, col). removeOne st row col boxRow boxCol) st
                    (take toRemove cells)))
       st boxes)"
  using assms
proof (induct boxes arbitrary: S st)
  case Nil
  then show ?case by (simp add: firstCells_def)
next
  case (Cons b boxes)
  obtain boxRow boxCol where b: "b = (boxRow, boxCol)" by (cases b)
  let ?cs = "take m (cellsByBox ! boxRow ! boxCol)"
  from Cons(4)[of boxRow boxCol] b
  have here: "set (cellsByBox ! boxRow ! boxCol) \<subseteq> boxCells boxRow boxCol"
    "distinct (cellsByBox ! boxRow ! boxCol)" "boxCells boxRow boxCol \<inter> S = {}"
    by simp_all
  have sub: "set ?cs \<subseteq> boxCells boxRow boxCol"
    using here(1) set_take_subset[of m "cellsByBox ! boxRow ! boxCol"] by blast
  have 1: "removedState (S \<union> set ?cs)
      (foldl (\<lambda>st (row, col). removeOne st row col boxRow boxCol) st ?cs)"
  proof (rule removedState_box[OF Cons(2) sub])
    show "distinct ?cs" using here(2) by simp
    show "set ?cs \<inter> S = {}" using sub here(3) by blast
  qed
  have 2: "distinct boxes" using Cons(3) by simp
  have 3: "set (cellsByBox ! br ! bc) \<subseteq> boxCells br bc \<and>
      distinct (cellsByBox ! br ! bc) \<and> boxCells br bc \<inter> (S \<union> set ?cs) = {}"
    if "(br, bc) \<in> set boxes" for br bc
  proof -
    from that Cons(3) b have "(br, bc) \<noteq> (boxRow, boxCol)" by auto
    from boxCells_disjoint[OF this] sub have "boxCells br bc \<inter> set ?cs = {}" by blast
    with Cons(4)[of br bc] that show ?thesis by auto
  qed
  have "S \<union> set ?cs \<union> firstCells cellsByBox m boxes = S \<union> firstCells cellsByBox m (b # boxes)"
    by (auto simp: firstCells_def b)
  with Cons(1)[OF 1 2 3] show ?case by (simp add: b Let_def)
qed

lemma removedState_firstPass:
  assumes "removedState {} st"
    and "\<And>boxRow boxCol. boxRow < 3 \<Longrightarrow> boxCol < 3 \<Longrightarrow>
        set (cellsByBox ! boxRow ! boxCol) \<subseteq> boxCells boxRow boxCol \<and>
        distinct (cellsByBox ! boxRow ! boxCol)"
  shows "removedState (firstCells cellsByBox m (List.product [0..<3] [0..<3]))
     (firstPass cellsByBox m st)"
proof -
  have d: "distinct (List.product [0..<3] [0..<3])" by (simp add: distinct_product)
  have "removedState ({} \<union> firstCells cellsByBox m (List.product [0..<3] [0..<3]))
     (firstPass cellsByBox m st)"
    unfolding firstPass_def
  proof (rule removedState_boxes[OF assms(1) d])
    fix boxRow boxCol assume "(boxRow, boxCol) \<in> set (List.product [0..<3] [0..<3])"
    then have "boxRow < 3" "boxCol < 3" by simp_all
    from assms(2)[OF this]
    show "set (cellsByBox ! boxRow ! boxCol) \<subseteq> boxCells boxRow boxCol \<and>
        distinct (cellsByBox ! boxRow ! boxCol) \<and> boxCells boxRow boxCol \<inter> {} = {}"
      by simp
  qed
  then show ?thesis by simp
qed

text \<open>After the first pass each box has lost the first \<open>m\<close> cells of its list.\<close>

lemma firstCells_box:
  assumes cb: "\<And>boxRow boxCol. boxRow < 3 \<Longrightarrow> boxCol < 3 \<Longrightarrow>
        set (cellsByBox ! boxRow ! boxCol) \<subseteq> boxCells boxRow boxCol"
    and b: "boxRow < 3" "boxCol < 3"
  shows "firstCells cellsByBox m (List.product [0..<3] [0..<3]) \<inter> boxCells boxRow boxCol =
     set (take m (cellsByBox ! boxRow ! boxCol))"
proof (intro set_eqI iffI)
  fix x assume x: "x \<in> set (take m (cellsByBox ! boxRow ! boxCol))"
  from x cb[OF b] set_take_subset[of m "cellsByBox ! boxRow ! boxCol"]
  have 1: "x \<in> boxCells boxRow boxCol" by blast
  from b have "(boxRow, boxCol) \<in> set (List.product [0..<3] [0..<3])" by simp
  with x have 2: "x \<in> firstCells cellsByBox m (List.product [0..<3] [0..<3])"
    unfolding firstCells_def by blast
  from 1 2 show "x \<in> firstCells cellsByBox m (List.product [0..<3] [0..<3]) \<inter>
      boxCells boxRow boxCol" by simp
next
  fix x assume x: "x \<in> firstCells cellsByBox m (List.product [0..<3] [0..<3]) \<inter>
      boxCells boxRow boxCol"
  then obtain br bc where bb: "br < 3" "bc < 3" and t: "x \<in> set (take m (cellsByBox ! br ! bc))"
    by (auto simp: firstCells_def)
  from t cb[OF bb] set_take_subset[of m "cellsByBox ! br ! bc"]
  have "x \<in> boxCells br bc" by blast
  with x have "boxCells br bc \<inter> boxCells boxRow boxCol \<noteq> {}" by blast
  with boxCells_disjoint[of br bc boxRow boxCol] have "br = boxRow" "bc = boxCol" by auto
  with t show "x \<in> set (take m (cellsByBox ! boxRow ! boxCol))" by simp
qed

subsection \<open>The second pass\<close>

text \<open>
  A pool cell is \<open>tagged\<close> when its third and fourth components are the box it lies in;
  \<open>cellPos\<close> is its position.
\<close>

definition tagged :: "nat \<times> nat \<times> nat \<times> nat \<Rightarrow> bool" where
  "tagged x = (case x of (row, col, boxRow, boxCol) \<Rightarrow>
     row < 9 \<and> col < 9 \<and> boxRow = row div 3 \<and> boxCol = col div 3)"

definition cellPos :: "nat \<times> nat \<times> nat \<times> nat \<Rightarrow> nat \<times> nat" where
  "cellPos x = (case x of (row, col, boxRow, boxCol) \<Rightarrow> (row, col))"

definition passDone :: "nat \<Rightarrow> (nat \<times> nat) set \<Rightarrow> nat \<times> nat \<times> nat \<times> nat \<Rightarrow> bool" where
  "passDone maxRemovedPerBox S x =
     (case x of (row, col, boxRow, boxCol) \<Rightarrow>
        (row, col) \<in> S \<or> maxRemovedPerBox \<le> card (S \<inter> boxCells boxRow boxCol))"

lemma removedState_finite: "removedState S st \<Longrightarrow> finite S"
  by (cases st) (auto simp: removedState_def intro: finite_subset[OF _ finite_gridCells])

lemma passDone_mono:
  assumes "passDone M S x" "S \<subseteq> S'" "finite S'"
  shows "passDone M S' x"
proof -
  obtain row col boxRow boxCol where x: "x = (row, col, boxRow, boxCol)" by (cases x)
  have "card (S \<inter> boxCells boxRow boxCol) \<le> card (S' \<inter> boxCells boxRow boxCol)"
    by (rule card_mono) (use assms(2,3) in auto)
  with assms(1,2) show ?thesis unfolding passDone_def x prod.case by auto
qed

lemma secondPass_removed:
  assumes "removedState S st" "\<forall>x \<in> set cells. tagged x" "distinct (map cellPos cells)"
    "cellPos ` set cells \<inter> S = {}"
  shows "\<exists>S'. removedState S' (secondPass t M cells st) \<and> S \<subseteq> S' \<and>
     (card S \<le> t \<longrightarrow> card S' \<le> t) \<and>
     (\<forall>boxRow<3. \<forall>boxCol<3. card (S \<inter> boxCells boxRow boxCol) \<le> M \<longrightarrow>
        card (S' \<inter> boxCells boxRow boxCol) \<le> M) \<and>
     (t \<le> card S' \<or> (\<forall>x \<in> set cells. passDone M S' x))"
  using assms
proof (induct cells arbitrary: S st)
  case Nil
  then show ?case by (intro exI[of _ S]) simp
next
  case (Cons x cells)
  obtain row col boxRow boxCol where x: "x = (row, col, boxRow, boxCol)" by (cases x)
  obtain p brm T where st: "st = (p, brm, T)" by (cases st)
  from Cons(3) x have rc: "row < 9" "col < 9" and b: "boxRow = row div 3" "boxCol = col div 3"
    by (simp_all add: tagged_def)
  from rc b have bb: "boxRow < 3" "boxCol < 3" by (simp_all add: less_mult_imp_div_less)
  from Cons(2) st have T: "T = card S"
    and cnt: "brm ! boxRow ! boxCol = card (S \<inter> boxCells boxRow boxCol)"
    using bb by (simp_all add: removedState_def)
  note fin = removedState_finite[OF Cons(2)]
  from Cons(3) have 2: "\<forall>x \<in> set cells. tagged x" by simp
  from Cons(4) have 3: "distinct (map cellPos cells)" by simp
  from Cons(5) have 4: "cellPos ` set cells \<inter> S = {}" by auto
  show ?case
  proof (cases "t \<le> T")
    case True
    then have "secondPass t M (x # cells) st = st" by (simp add: x st)
    with Cons(2) True T show ?thesis by (intro exI[of _ S]) simp
  next
    case notyet: False
    show ?thesis
    proof (cases "M \<le> brm ! boxRow ! boxCol")
      case True
      with notyet have e: "secondPass t M (x # cells) st = secondPass t M cells st"
        by (simp add: x st)
      from Cons(1)[OF Cons(2) 2 3 4] obtain S' where
        S': "removedState S' (secondPass t M cells st)" "S \<subseteq> S'"
          "card S \<le> t \<longrightarrow> card S' \<le> t"
          "\<forall>boxRow<3. \<forall>boxCol<3. card (S \<inter> boxCells boxRow boxCol) \<le> M \<longrightarrow>
             card (S' \<inter> boxCells boxRow boxCol) \<le> M"
          "t \<le> card S' \<or> (\<forall>x \<in> set cells. passDone M S' x)"
        by blast
      from True cnt have "passDone M S x" by (simp add: passDone_def x)
      from passDone_mono[OF this S'(2) removedState_finite[OF S'(1)]]
      have "passDone M S' x" .
      with S'(5) have "t \<le> card S' \<or> (\<forall>x \<in> set (x # cells). passDone M S' x)" by auto
      with S'(1-4) show ?thesis unfolding e by (intro exI[of _ S'] conjI)
    next
      case False
      let ?S = "insert (row, col) S"
      let ?st = "removeOne st row col boxRow boxCol"
      from False notyet have e: "secondPass t M (x # cells) st = secondPass t M cells ?st"
        by (simp add: x st)
      from Cons(5) x have new: "(row, col) \<notin> S" by (auto simp: cellPos_def)
      have 1: "removedState ?S ?st"
        unfolding b by (rule removedState_removeOne[OF Cons(2) rc new])
      from Cons(4,5) x have 4: "cellPos ` set cells \<inter> ?S = {}" by (auto simp: cellPos_def)
      from Cons(1)[OF 1 2 3 4] obtain S' where
        S': "removedState S' (secondPass t M cells ?st)" "?S \<subseteq> S'"
          "card ?S \<le> t \<longrightarrow> card S' \<le> t"
          "\<forall>boxRow<3. \<forall>boxCol<3. card (?S \<inter> boxCells boxRow boxCol) \<le> M \<longrightarrow>
             card (S' \<inter> boxCells boxRow boxCol) \<le> M"
          "t \<le> card S' \<or> (\<forall>x \<in> set cells. passDone M S' x)"
        by blast
      from S'(2) have a: "S \<subseteq> S'" by blast
      from notyet T fin new have "card ?S \<le> t" by simp
      with S'(3) have c: "card S \<le> t \<longrightarrow> card S' \<le> t" by simp
      have d: "\<forall>br<3. \<forall>bc<3. card (S \<inter> boxCells br bc) \<le> M \<longrightarrow>
             card (S' \<inter> boxCells br bc) \<le> M"
      proof (intro allI impI)
        fix br bc :: nat assume h: "br < 3" "bc < 3" "card (S \<inter> boxCells br bc) \<le> M"
        have "card (?S \<inter> boxCells br bc) \<le> M"
        proof (cases "(row, col) \<in> boxCells br bc")
          case True
          with rc b have "br = boxRow" "bc = boxCol" by (simp_all add: in_boxCells)
          moreover have "?S \<inter> boxCells boxRow boxCol = insert (row, col) (S \<inter> boxCells boxRow boxCol)"
            using True \<open>br = boxRow\<close> \<open>bc = boxCol\<close> by blast
          moreover have "card (insert (row, col) (S \<inter> boxCells boxRow boxCol)) =
              card (S \<inter> boxCells boxRow boxCol) + 1"
            using fin new by simp
          ultimately show ?thesis using False cnt by simp
        next
          case False
          then have "?S \<inter> boxCells br bc = S \<inter> boxCells br bc" by blast
          with h(3) show ?thesis by simp
        qed
        with S'(4) h(1,2) show "card (S' \<inter> boxCells br bc) \<le> M" by blast
      qed
      from S'(2) have "passDone M S' x" by (simp add: passDone_def x)
      with S'(5) have f: "t \<le> card S' \<or> (\<forall>x \<in> set (x # cells). passDone M S' x)" by auto
      from S'(1) a c d f show ?thesis unfolding e by (intro exI[of _ S'] conjI)
    qed
  qed
qed

subsection \<open>The lists of cells\<close>

lemma foldl_invariant:
  assumes "I st" "\<And>st x. x \<in> set xs \<Longrightarrow> I st \<Longrightarrow> I (f st x)"
  shows "I (foldl f st xs)"
  using assms by (induct xs arbitrary: st) simp_all

lemma shuffleArray_mset:
  assumes "goodRandoms rs"
  shows "mset (fst (shuffleArray xs rs)) = mset xs"
proof (cases "xs = []")
  case True
  then show ?thesis by (simp add: shuffleArray_def)
next
  case False
  from shuffleArray_props(1)[OF assms this] show ?thesis .
qed

text \<open>\<^verbatim>\<open>cellsByBox\<close> before the shuffles: the list of each box holds its nine cells.\<close>

lemma groupCellsByBox_shape:
  "length groupCellsByBox = 3 \<and> (\<forall>r \<in> set [0..<3]. length (groupCellsByBox ! r) = 3)"
  by code_simp

lemma groupCellsByBox_cells:
  "\<forall>boxRow \<in> set [0..<3]. \<forall>boxCol \<in> set [0..<3].
     distinct (groupCellsByBox ! boxRow ! boxCol) \<and>
     length (groupCellsByBox ! boxRow ! boxCol) = 9 \<and>
     (\<forall>(r, c) \<in> set (groupCellsByBox ! boxRow ! boxCol).
        r < 9 \<and> c < 9 \<and> r div 3 = boxRow \<and> c div 3 = boxCol)"
  by code_simp

lemma boxShape_groupCellsByBox: "boxShape groupCellsByBox"
  using groupCellsByBox_shape by (simp add: boxShape_def)

lemma groupCellsByBox_box:
  assumes b: "boxRow < 3" "boxCol < 3"
  shows "distinct (groupCellsByBox ! boxRow ! boxCol)"
    and "set (groupCellsByBox ! boxRow ! boxCol) = boxCells boxRow boxCol"
proof -
  let ?xs = "groupCellsByBox ! boxRow ! boxCol"
  from b have "boxRow \<in> set [0..<3]" "boxCol \<in> set [0..<3]" by simp_all
  with groupCellsByBox_cells have d: "distinct ?xs" and l: "length ?xs = 9"
    and c: "\<forall>(r, c) \<in> set ?xs. r < 9 \<and> c < 9 \<and> r div 3 = boxRow \<and> c div 3 = boxCol"
    by blast+
  show "distinct ?xs" by (rule d)
  from c have sub: "set ?xs \<subseteq> boxCells boxRow boxCol" by (auto simp: boxCells_def)
  from d l have "card (set ?xs) = card (boxCells boxRow boxCol)"
    by (simp add: distinct_card card_boxCells[OF b])
  from card_subset_eq[OF finite_boxCells sub this]
  show "set ?xs = boxCells boxRow boxCol" .
qed

text \<open>The shuffles permute the list of each box.\<close>

lemma shuffleBoxes_mset:
  assumes g: "goodRandoms rs" and sh: "boxShape cellsByBox" and b: "boxRow < 3" "boxCol < 3"
  shows "mset (fst (shuffleBoxes cellsByBox rs) ! boxRow ! boxCol) =
     mset (cellsByBox ! boxRow ! boxCol)"
proof -
  let ?I = "\<lambda>st. goodRandoms (snd st) \<and> boxShape (fst st) \<and>
     (\<forall>br<3. \<forall>bc<3. mset (fst st ! br ! bc) = mset (cellsByBox ! br ! bc))"
  have "?I (shuffleBoxes cellsByBox rs)"
    unfolding shuffleBoxes_def
  proof (rule foldl_invariant[where I = ?I])
    show "?I (cellsByBox, rs)" using g sh by simp
  next
    fix st :: "(nat \<times> nat) list list list \<times> rng" and x :: "nat \<times> nat"
    assume x: "x \<in> set (List.product [0..<3] [0..<3])" and I: "?I st"
    obtain cb rs' where st: "st = (cb, rs')" by (cases st)
    obtain br0 bc0 where x0: "x = (br0, bc0)" by (cases x)
    from x x0 have b0: "br0 < 3" "bc0 < 3" by simp_all
    from I st have g': "goodRandoms rs'" and sh': "boxShape cb"
      and m: "\<And>br bc. br < 3 \<Longrightarrow> bc < 3 \<Longrightarrow> mset (cb ! br ! bc) = mset (cellsByBox ! br ! bc)"
      by simp_all
    let ?cells = "fst (shuffleArray (cb ! br0 ! bc0) rs')"
    let ?rs = "snd (shuffleArray (cb ! br0 ! bc0) rs')"
    have e: "(case st of (cellsByBox, rs) \<Rightarrow> \<lambda>(boxRow, boxCol).
          let (cells, rs') = shuffleArray (cellsByBox ! boxRow ! boxCol) rs
          in (setCell cellsByBox boxRow boxCol cells, rs')) x = (setCell cb br0 bc0 ?cells, ?rs)"
      by (simp add: st x0 split_beta Let_def)
    from sh' b0 have len: "br0 < length cb" "bc0 < length (cb ! br0)"
      by (simp_all add: boxShape_def)
    have 1: "goodRandoms ?rs" by (rule goodRandoms_shuffleArray[OF g'])
    have 2: "boxShape (setCell cb br0 bc0 ?cells)" by (rule boxShape_setCell[OF sh'])
    have 3: "\<forall>br<3. \<forall>bc<3. mset (setCell cb br0 bc0 ?cells ! br ! bc) =
        mset (cellsByBox ! br ! bc)"
    proof (intro allI impI)
      fix br bc :: nat assume bb: "br < 3" "bc < 3"
      show "mset (setCell cb br0 bc0 ?cells ! br ! bc) = mset (cellsByBox ! br ! bc)"
      proof (cases "br = br0 \<and> bc = bc0")
        case True
        with len have "setCell cb br0 bc0 ?cells ! br ! bc = ?cells" by (simp add: nth_setCell)
        with shuffleArray_mset[OF g', of "cb ! br0 ! bc0"] m[OF b0] True show ?thesis by simp
      next
        case False
        then have "setCell cb br0 bc0 ?cells ! br ! bc = cb ! br ! bc"
          by (auto simp: nth_setCell)
        with m[OF bb] show ?thesis by simp
      qed
    qed
    from 1 2 3 show "?I ((case st of (cellsByBox, rs) \<Rightarrow> \<lambda>(boxRow, boxCol).
          let (cells, rs') = shuffleArray (cellsByBox ! boxRow ! boxCol) rs
          in (setCell cellsByBox boxRow boxCol cells, rs')) x)"
      unfolding e fst_conv snd_conv by (intro conjI)
  qed
  with b show ?thesis by blast
qed

lemma shuffled_box:
  assumes g: "goodRandoms rs" and b: "boxRow < 3" "boxCol < 3"
  shows "distinct (fst (shuffleBoxes groupCellsByBox rs) ! boxRow ! boxCol)"
    and "set (fst (shuffleBoxes groupCellsByBox rs) ! boxRow ! boxCol) = boxCells boxRow boxCol"
proof -
  note m = shuffleBoxes_mset[OF g boxShape_groupCellsByBox b]
  from mset_eq_imp_distinct_iff[OF m] groupCellsByBox_box(1)[OF b]
  show "distinct (fst (shuffleBoxes groupCellsByBox rs) ! boxRow ! boxCol)" by simp
  from mset_eq_setD[OF m] groupCellsByBox_box(2)[OF b]
  show "set (fst (shuffleBoxes groupCellsByBox rs) ! boxRow ! boxCol) = boxCells boxRow boxCol"
    by simp
qed

lemma distinct_concat_map:
  assumes "distinct bs" "\<And>b. b \<in> set bs \<Longrightarrow> distinct (f b)"
    "\<And>b b'. b \<in> set bs \<Longrightarrow> b' \<in> set bs \<Longrightarrow> b \<noteq> b' \<Longrightarrow> set (f b) \<inter> set (f b') = {}"
  shows "distinct (concat (map f bs))"
  using assms
proof (induct bs)
  case Nil
  then show ?case by simp
next
  case (Cons b bs)
  have "distinct (concat (map f bs))"
    by (rule Cons(1)) (use Cons(2-4) in auto)
  moreover have "distinct (f b)" by (rule Cons(3)) simp
  moreover have "set (f b) \<inter> set (f b') = {}" if "b' \<in> set bs" for b'
    by (rule Cons(4)) (use that Cons(2) in auto)
  ultimately show ?case by auto
qed

lemma poolCells_mem:
  "x \<in> set (poolCells cellsByBox m) \<longleftrightarrow>
     (\<exists>boxRow<3. \<exists>boxCol<3. \<exists>row col.
        (row, col) \<in> set (drop m (cellsByBox ! boxRow ! boxCol)) \<and>
        x = (row, col, boxRow, boxCol))"
  unfolding poolCells_def by (auto simp: split_beta) force

lemma poolCells_positions:
  "map cellPos (poolCells cellsByBox m) =
     concat (map (\<lambda>(boxRow, boxCol). drop m (cellsByBox ! boxRow ! boxCol))
       (List.product [0..<3] [0..<3]))"
proof -
  have "cellPos (row, col, b) = (row, col)" for row col :: nat and b :: "nat \<times> nat"
    by (simp add: cellPos_def split_beta)
  then show ?thesis
    unfolding poolCells_def map_concat map_map o_def split_beta by simp
qed

lemma poolCells_props:
  assumes cb: "\<And>boxRow boxCol. boxRow < 3 \<Longrightarrow> boxCol < 3 \<Longrightarrow>
        distinct (cellsByBox ! boxRow ! boxCol) \<and>
        set (cellsByBox ! boxRow ! boxCol) = boxCells boxRow boxCol"
  shows "\<forall>x \<in> set (poolCells cellsByBox m). tagged x"
    and "distinct (map cellPos (poolCells cellsByBox m))"
    and "cellPos ` set (poolCells cellsByBox m) \<inter>
           firstCells cellsByBox m (List.product [0..<3] [0..<3]) = {}"
proof -
  have inbox: "(row, col) \<in> boxCells boxRow boxCol"
    if "boxRow < 3" "boxCol < 3" "(row, col) \<in> set (drop m (cellsByBox ! boxRow ! boxCol))"
    for boxRow boxCol row col
    using cb[OF that(1,2)] that(3) set_drop_subset[of m "cellsByBox ! boxRow ! boxCol"] by blast
  show "\<forall>x \<in> set (poolCells cellsByBox m). tagged x"
  proof
    fix x assume "x \<in> set (poolCells cellsByBox m)"
    then obtain boxRow boxCol row col where b: "boxRow < 3" "boxCol < 3"
      and c: "(row, col) \<in> set (drop m (cellsByBox ! boxRow ! boxCol))"
      and x: "x = (row, col, boxRow, boxCol)"
      unfolding poolCells_mem by blast
    from inbox[OF b c] show "tagged x" by (auto simp: tagged_def x boxCells_def)
  qed
  show "distinct (map cellPos (poolCells cellsByBox m))"
    unfolding poolCells_positions
  proof (rule distinct_concat_map)
    show "distinct (List.product [0..<3] [0..<3])" by (simp add: distinct_product)
  next
    fix b :: "nat \<times> nat" assume "b \<in> set (List.product [0..<3] [0..<3])"
    then have "fst b < 3" "snd b < 3" by auto
    from cb[OF this] show "distinct (case b of (boxRow, boxCol) \<Rightarrow>
        drop m (cellsByBox ! boxRow ! boxCol))"
      by (simp add: split_beta)
  next
    fix b b' :: "nat \<times> nat"
    assume "b \<in> set (List.product [0..<3] [0..<3])" "b' \<in> set (List.product [0..<3] [0..<3])"
      and ne: "b \<noteq> b'"
    then have bb: "fst b < 3" "snd b < 3" "fst b' < 3" "snd b' < 3" by auto
    from ne have "(fst b, snd b) \<noteq> (fst b', snd b')" by simp
    from boxCells_disjoint[OF this] cb[OF bb(1,2)] cb[OF bb(3,4)]
      set_drop_subset[of m "cellsByBox ! fst b ! snd b"]
      set_drop_subset[of m "cellsByBox ! fst b' ! snd b'"]
    show "set (case b of (boxRow, boxCol) \<Rightarrow> drop m (cellsByBox ! boxRow ! boxCol)) \<inter>
        set (case b' of (boxRow, boxCol) \<Rightarrow> drop m (cellsByBox ! boxRow ! boxCol)) = {}"
      unfolding split_beta by blast
  qed
  show "cellPos ` set (poolCells cellsByBox m) \<inter>
      firstCells cellsByBox m (List.product [0..<3] [0..<3]) = {}"
  proof (rule ccontr)
    assume "cellPos ` set (poolCells cellsByBox m) \<inter>
      firstCells cellsByBox m (List.product [0..<3] [0..<3]) \<noteq> {}"
    then obtain x where x: "x \<in> set (poolCells cellsByBox m)"
      and f: "cellPos x \<in> firstCells cellsByBox m (List.product [0..<3] [0..<3])" by blast
    from x obtain boxRow boxCol row col where b: "boxRow < 3" "boxCol < 3"
      and c: "(row, col) \<in> set (drop m (cellsByBox ! boxRow ! boxCol))"
      and xe: "x = (row, col, boxRow, boxCol)"
      unfolding poolCells_mem by blast
    from xe have p: "cellPos x = (row, col)" by (simp add: cellPos_def)
    from cb have sub: "\<And>boxRow boxCol. boxRow < 3 \<Longrightarrow> boxCol < 3 \<Longrightarrow>
        set (cellsByBox ! boxRow ! boxCol) \<subseteq> boxCells boxRow boxCol" by simp
    from f p inbox[OF b c] firstCells_box[OF sub b, of m]
    have "(row, col) \<in> set (take m (cellsByBox ! boxRow ! boxCol))" by auto
    with c set_take_disj_set_drop_if_distinct[of "cellsByBox ! boxRow ! boxCol" m m] cb[OF b]
    show False by auto
  qed
qed

subsection \<open>The clue counts after the two passes\<close>

lemma removal_counts:
  assumes wf: "wfBoard board" and full: "allFilled board"
    and cb: "\<And>boxRow boxCol. boxRow < 3 \<Longrightarrow> boxCol < 3 \<Longrightarrow>
        distinct (cellsByBox ! boxRow ! boxCol) \<and>
        set (cellsByBox ! boxRow ! boxCol) = boxCells boxRow boxCol"
    and sh: "mset cells = mset (poolCells cellsByBox m)"
    and bounds: "m \<le> M" "M \<le> 9" "9 * m \<le> t" "t \<le> 9 * M"
    and res: "secondPass t M cells (firstPass cellsByBox m (board, replicate 3 (replicate 3 0), 0))
       = (puzzle, boxRemovals, totalRemoved)"
  shows "clueCount puzzle = 81 - t"
    and "\<forall>boxRow<3. \<forall>boxCol<3. 9 - M \<le> countFilledInBox puzzle boxRow boxCol \<and>
       countFilledInBox puzzle boxRow boxCol \<le> 9 - m"
proof -
  let ?boxes = "List.product [0..<3] [0..<3]"
  let ?S1 = "firstCells cellsByBox m ?boxes"
  let ?st1 = "firstPass cellsByBox m (board, replicate 3 (replicate 3 0), 0)"
  from cb have sub: "\<And>boxRow boxCol. boxRow < 3 \<Longrightarrow> boxCol < 3 \<Longrightarrow>
        set (cellsByBox ! boxRow ! boxCol) \<subseteq> boxCells boxRow boxCol" by simp
  have st1: "removedState ?S1 ?st1"
    by (rule removedState_firstPass[OF removedState_start[OF wf full]]) (use cb in simp)
  have len: "length (cellsByBox ! boxRow ! boxCol) = 9" if "boxRow < 3" "boxCol < 3"
    for boxRow boxCol
    using cb[OF that] distinct_card[of "cellsByBox ! boxRow ! boxCol"] card_boxCells[OF that]
    by simp
  have box1: "card (?S1 \<inter> boxCells boxRow boxCol) = m" if b: "boxRow < 3" "boxCol < 3"
    for boxRow boxCol
  proof -
    from cb[OF b] have "distinct (take m (cellsByBox ! boxRow ! boxCol))" by simp
    from distinct_card[OF this] len[OF b] bounds(1,2)
    have "card (set (take m (cellsByBox ! boxRow ! boxCol))) = m" by simp
    then show ?thesis by (simp only: firstCells_box[OF sub b])
  qed
  have S1sub: "?S1 \<subseteq> gridCells" using st1 by (cases ?st1) (simp add: removedState_def)
  have "card ?S1 = (\<Sum>(boxRow, boxCol) \<in> {0..<3::nat} \<times> {0..<3::nat}. m)"
    unfolding card_by_boxes[OF S1sub]
    by (rule sum.cong[OF refl]) (auto simp: box1)
  then have card1: "card ?S1 = 9 * m" by simp
  from mset_eq_setD[OF sh] have set_cells: "set cells = set (poolCells cellsByBox m)" .
  note pool = poolCells_props[OF cb, of m]
  have 1: "\<forall>x \<in> set cells. tagged x" unfolding set_cells by (rule pool(1))
  from sh have "mset (map cellPos cells) = mset (map cellPos (poolCells cellsByBox m))"
    by simp
  from mset_eq_imp_distinct_iff[OF this] pool(2)
  have 2: "distinct (map cellPos cells)" by simp
  have 3: "cellPos ` set cells \<inter> ?S1 = {}" unfolding set_cells by (rule pool(3))
  from secondPass_removed[OF st1 1 2 3, of t M] res obtain S' where
    S': "removedState S' (puzzle, boxRemovals, totalRemoved)" and mono: "?S1 \<subseteq> S'"
    and tot: "card ?S1 \<le> t \<longrightarrow> card S' \<le> t"
    and cap: "\<forall>boxRow<3. \<forall>boxCol<3. card (?S1 \<inter> boxCells boxRow boxCol) \<le> M \<longrightarrow>
        card (S' \<inter> boxCells boxRow boxCol) \<le> M"
    and stop: "t \<le> card S' \<or> (\<forall>x \<in> set cells. passDone M S' x)"
    by auto
  have fin: "finite S'" by (rule removedState_finite[OF S'])
  from S' have S'sub: "S' \<subseteq> gridCells" by (simp add: removedState_def)
  from tot card1 bounds(3) have le: "card S' \<le> t" by simp
  have box_le: "card (S' \<inter> boxCells boxRow boxCol) \<le> M" if b: "boxRow < 3" "boxCol < 3"
    for boxRow boxCol
    using cap b box1[OF b] bounds(1) by simp
  have box_ge: "m \<le> card (S' \<inter> boxCells boxRow boxCol)" if b: "boxRow < 3" "boxCol < 3"
    for boxRow boxCol
  proof -
    have "card (?S1 \<inter> boxCells boxRow boxCol) \<le> card (S' \<inter> boxCells boxRow boxCol)"
      by (rule card_mono) (use mono fin in auto)
    with box1[OF b] show ?thesis by simp
  qed
  have ge: "t \<le> card S'"
  proof (rule ccontr)
    assume "\<not> t \<le> card S'"
    with stop have all: "\<And>x. x \<in> set (poolCells cellsByBox m) \<Longrightarrow> passDone M S' x"
      unfolding set_cells by blast
    have full_box: "M \<le> card (S' \<inter> boxCells boxRow boxCol)" if b: "boxRow < 3" "boxCol < 3"
      for boxRow boxCol
    proof (rule ccontr)
      assume n: "\<not> M \<le> card (S' \<inter> boxCells boxRow boxCol)"
      have "set (cellsByBox ! boxRow ! boxCol) \<subseteq> S'"
      proof
        fix x assume x: "x \<in> set (cellsByBox ! boxRow ! boxCol)"
        obtain row col where xe: "x = (row, col)" by (cases x)
        from x have "x \<in> set (take m (cellsByBox ! boxRow ! boxCol)) \<or>
            x \<in> set (drop m (cellsByBox ! boxRow ! boxCol))"
          using append_take_drop_id[of m "cellsByBox ! boxRow ! boxCol"]
          by (metis Un_iff set_append)
        then show "x \<in> S'"
        proof
          assume "x \<in> set (take m (cellsByBox ! boxRow ! boxCol))"
          with firstCells_box[OF sub b, of m] mono show ?thesis by blast
        next
          assume "x \<in> set (drop m (cellsByBox ! boxRow ! boxCol))"
          with xe b have "(row, col, boxRow, boxCol) \<in> set (poolCells cellsByBox m)"
            unfolding poolCells_mem by blast
          from all[OF this] n show ?thesis by (simp add: passDone_def xe)
        qed
      qed
      with cb[OF b] have "S' \<inter> boxCells boxRow boxCol = boxCells boxRow boxCol" by blast
      with n card_boxCells[OF b] bounds(2) show False by simp
    qed
    have "(\<Sum>(boxRow, boxCol) \<in> {0..<3::nat} \<times> {0..<3::nat}. M) \<le>
        (\<Sum>(boxRow, boxCol) \<in> {0..<3} \<times> {0..<3}. card (S' \<inter> boxCells boxRow boxCol))"
      by (rule sum_mono) (auto simp: full_box)
    then have "9 * M \<le> card S'" unfolding card_by_boxes[OF S'sub] by simp
    with \<open>\<not> t \<le> card S'\<close> bounds(4) show False by simp
  qed
  from le ge have eq: "card S' = t" by simp
  from removedState_counts(1)[OF S'] eq show "clueCount puzzle = 81 - t" by simp
  show "\<forall>boxRow<3. \<forall>boxCol<3. 9 - M \<le> countFilledInBox puzzle boxRow boxCol \<and>
       countFilledInBox puzzle boxRow boxCol \<le> 9 - m"
  proof (intro allI impI)
    fix boxRow boxCol :: nat assume b: "boxRow < 3" "boxCol < 3"
    from removedState_counts(2)[OF S' b] box_le[OF b] box_ge[OF b]
    show "9 - M \<le> countFilledInBox puzzle boxRow boxCol \<and>
       countFilledInBox puzzle boxRow boxCol \<le> 9 - m"
      by arith
  qed
qed

lemma range_bounds:
  assumes "getBoxConstraints difficulty = (minPerBox, maxPerBox)"
    and "getCluesRange difficulty = (minTotal, maxTotal)"
    and "k < maxTotal - minTotal + 1"
  shows "minTotal + k \<le> maxTotal" "maxTotal \<le> 81"
    "9 - maxPerBox \<le> 9 - minPerBox" "9 - minPerBox \<le> 9"
    "9 * (9 - maxPerBox) \<le> 81 - (minTotal + k)"
    "81 - (minTotal + k) \<le> 9 * (9 - minPerBox)"
    "minPerBox \<le> 9" "maxPerBox \<le> 9"
proof -
  have "minTotal + k \<le> maxTotal \<and> maxTotal \<le> 81 \<and>
    9 - maxPerBox \<le> 9 - minPerBox \<and> 9 - minPerBox \<le> 9 \<and>
    9 * (9 - maxPerBox) \<le> 81 - (minTotal + k) \<and>
    81 - (minTotal + k) \<le> 9 * (9 - minPerBox) \<and>
    minPerBox \<le> 9 \<and> maxPerBox \<le> 9"
  proof (cases difficulty)
    case EASY
    with assms(1,2) have "minPerBox = 3" "maxPerBox = 6" "minTotal = 36" "maxTotal = 41"
      by simp_all
    with assms(3) show ?thesis by (simp; arith)
  next
    case MEDIUM
    with assms(1,2) have "minPerBox = 2" "maxPerBox = 5" "minTotal = 27" "maxTotal = 32"
      by simp_all
    with assms(3) show ?thesis by (simp; arith)
  next
    case HARD
    with assms(1,2) have "minPerBox = 1" "maxPerBox = 4" "minTotal = 22" "maxTotal = 27"
      by simp_all
    with assms(3) show ?thesis by (simp; arith)
  next
    case EXPERT
    with assms(1,2) have "minPerBox = 0" "maxPerBox = 3" "minTotal = 17" "maxTotal = 22"
      by simp_all
    with assms(3) show ?thesis by (simp; arith)
  qed
  then show "minTotal + k \<le> maxTotal" "maxTotal \<le> 81"
    "9 - maxPerBox \<le> 9 - minPerBox" "9 - minPerBox \<le> 9"
    "9 * (9 - maxPerBox) \<le> 81 - (minTotal + k)"
    "81 - (minTotal + k) \<le> 9 * (9 - minPerBox)"
    "minPerBox \<le> 9" "maxPerBox \<le> 9"
    by blast+
qed

lemma removeCellsImproved_counts:
  assumes wf: "wfBoard board" and full: "allFilled board" and g: "goodRandoms rs"
  shows "fst (getCluesRange difficulty) \<le> clueCount (fst (removeCellsImproved board difficulty rs))"
    and "clueCount (fst (removeCellsImproved board difficulty rs)) \<le> snd (getCluesRange difficulty)"
    and "\<forall>boxRow<3. \<forall>boxCol<3.
       fst (getBoxConstraints difficulty) \<le>
         countFilledInBox (fst (removeCellsImproved board difficulty rs)) boxRow boxCol \<and>
       countFilledInBox (fst (removeCellsImproved board difficulty rs)) boxRow boxCol \<le>
         snd (getBoxConstraints difficulty)"
proof -
  obtain minPerBox maxPerBox where bc: "getBoxConstraints difficulty = (minPerBox, maxPerBox)"
    by (cases "getBoxConstraints difficulty")
  obtain minTotal maxTotal where cr: "getCluesRange difficulty = (minTotal, maxTotal)"
    by (cases "getCluesRange difficulty")
  define k where "k = randomInt (shd rs) (maxTotal - minTotal + 1)"
  define t where "t = 81 - (minTotal + k)"
  define cellsByBox where "cellsByBox = fst (shuffleBoxes groupCellsByBox (stl rs))"
  define rs1 where "rs1 = snd (shuffleBoxes groupCellsByBox (stl rs))"
  define cells where "cells = fst (shuffleArray (poolCells cellsByBox (9 - maxPerBox)) rs1)"
  obtain puzzle boxRemovals totalRemoved where
    res: "secondPass t (9 - minPerBox) cells
       (firstPass cellsByBox (9 - maxPerBox) (board, replicate 3 (replicate 3 0), 0)) =
       (puzzle, boxRemovals, totalRemoved)"
    by (cases "secondPass t (9 - minPerBox) cells
       (firstPass cellsByBox (9 - maxPerBox) (board, replicate 3 (replicate 3 0), 0))")
  have P: "fst (removeCellsImproved board difficulty rs) = puzzle"
    using res
    unfolding removeCellsImproved_def Let_def split_beta copyBoard_id bc cr fst_conv snd_conv
      t_def k_def cells_def cellsByBox_def rs1_def
    by simp
  from goodRandoms_shd[OF g] have "k < maxTotal - minTotal + 1"
    unfolding k_def by (intro randomInt_less) simp_all
  note ar = range_bounds[OF bc cr this]
  note k = ar(1,2) and b1 = ar(3) and b2 = ar(4) and b3 = ar(5)[folded t_def]
    and b4 = ar(6)[folded t_def] and b5 = ar(7,8)
  note g1 = goodRandoms_stl[OF g]
  have cb: "distinct (cellsByBox ! boxRow ! boxCol) \<and>
      set (cellsByBox ! boxRow ! boxCol) = boxCells boxRow boxCol"
    if "boxRow < 3" "boxCol < 3" for boxRow boxCol
    unfolding cellsByBox_def using shuffled_box[OF g1 that] by simp
  have "goodRandoms rs1" unfolding rs1_def by (rule goodRandoms_shuffleBoxes[OF g1])
  then have sh: "mset cells = mset (poolCells cellsByBox (9 - maxPerBox))"
    unfolding cells_def by (rule shuffleArray_mset)
  note r = removal_counts[OF wf full cb sh b1 b2 b3 b4 res]
  from r(1) k have c: "clueCount puzzle = minTotal + k" unfolding t_def by simp
  from c k(1) show "fst (getCluesRange difficulty) \<le>
      clueCount (fst (removeCellsImproved board difficulty rs))"
    unfolding P cr by simp
  from c k(1) show "clueCount (fst (removeCellsImproved board difficulty rs)) \<le>
      snd (getCluesRange difficulty)"
    unfolding P cr by simp
  from b5 have "9 - (9 - minPerBox) = minPerBox" "9 - (9 - maxPerBox) = maxPerBox" by simp_all
  with r(2) show "\<forall>boxRow<3. \<forall>boxCol<3.
       fst (getBoxConstraints difficulty) \<le>
         countFilledInBox (fst (removeCellsImproved board difficulty rs)) boxRow boxCol \<and>
       countFilledInBox (fst (removeCellsImproved board difficulty rs)) boxRow boxCol \<le>
         snd (getBoxConstraints difficulty)"
    unfolding P bc fst_conv snd_conv by simp
qed

subsection \<open>Hints and uniqueness on boards with and without a conflict\<close>

text \<open>
  With \<open>isSolvable\<close> (the search on a copy succeeds) as the condition, \<open>getNextHint\<close>
  gives the first empty cell in row-major order and the value the solved copy holds
  there, and null when the search fails.
\<close>

lemma getNextHint_isSolvable:
  assumes "wfBoard board"
  shows "snd (getNextHint board) = board \<and>
     (isSolvable board \<and> hasEmptyCell board \<longrightarrow>
        (\<exists>row col v. fst (getNextHint board) = Some (row, col, v) \<and> row < 9 \<and> col < 9 \<and>
           board ! row ! col = None \<and>
           (\<forall>r<9. \<forall>c<9. 9 * r + c < 9 * row + col \<longrightarrow> board ! r ! c \<noteq> None) \<and>
           snd (solveSudoku (copyBoard board)) ! row ! col = Some v)) \<and>
     (\<not> isSolvable board \<longrightarrow> fst (getNextHint board) = None)"
proof (intro conjI impI)
  show "snd (getNextHint board) = board"
    by (simp add: getNextHint_eq[OF assms])
  show "fst (getNextHint board) = None" if "\<not> isSolvable board"
    using that by (simp add: getNextHint_eq[OF assms])
  show "\<exists>row col v. fst (getNextHint board) = Some (row, col, v) \<and> row < 9 \<and> col < 9 \<and>
           board ! row ! col = None \<and>
           (\<forall>r<9. \<forall>c<9. 9 * r + c < 9 * row + col \<longrightarrow> board ! r ! c \<noteq> None) \<and>
           snd (solveSudoku (copyBoard board)) ! row ! col = Some v"
    if h: "isSolvable board \<and> hasEmptyCell board"
  proof -
    from h obtain row col where f: "firstEmpty board = Some (row, col)"
      using firstEmpty_hasEmptyCell[OF assms] by auto
    note first = firstEmpty_first[OF assms f]
    from h have "solveSudoku board = (True, snd (solveSudoku board))"
      by (cases "solveSudoku board") (simp add: isSolvable_def copyBoard_id)
    from solve_sound(1)[OF assms this] first
    obtain v where v: "snd (solveSudoku board) ! row ! col = Some v"
      unfolding solvedFrom_def allFilled_def by (metis not_Some_eq)
    from h f v have "fst (getNextHint board) = Some (row, col, v)"
      by (simp add: getNextHint_eq[OF assms])
    with first v show ?thesis by (simp add: copyBoard_id)
  qed
qed

text \<open>
  On a conflict-free grid the search succeeds exactly when a completion exists, so
  there the hint is null exactly when the grid has no completion or no empty cell, and
  the value of a hint is the value of a completion.
\<close>

lemma getNextHint_conflict_free:
  assumes g: "isGrid board" and v: "isBoardValid board"
  shows "(\<exists>s. isCompletion board s) \<Longrightarrow> hasEmptyCell board \<Longrightarrow>
       \<exists>row col v. fst (getNextHint board) = Some (row, col, v) \<and> row < 9 \<and> col < 9 \<and>
         board ! row ! col = None \<and>
         (\<forall>r<9. \<forall>c<9. 9 * r + c < 9 * row + col \<longrightarrow> board ! r ! c \<noteq> None) \<and>
         isCompletion board (snd (solveSudoku board)) \<and>
         snd (solveSudoku board) ! row ! col = Some v"
    and "\<not> (\<exists>s. isCompletion board s) \<Longrightarrow> fst (getNextHint board) = None"
proof -
  from g have wf: "wfBoard board" by (simp add: isGrid_iff)
  note h = getNextHint_isSolvable[OF wf]
  have s: "isSolvable board \<longleftrightarrow> (\<exists>s. isCompletion board s)"
    using solveSudoku_correct(1)[OF g v] by (simp add: isSolvable_def copyBoard_id)
  show "fst (getNextHint board) = None" if "\<not> (\<exists>s. isCompletion board s)"
    using that h s by blast
  show "\<exists>row col v. fst (getNextHint board) = Some (row, col, v) \<and> row < 9 \<and> col < 9 \<and>
         board ! row ! col = None \<and>
         (\<forall>r<9. \<forall>c<9. 9 * r + c < 9 * row + col \<longrightarrow> board ! r ! c \<noteq> None) \<and>
         isCompletion board (snd (solveSudoku board)) \<and>
         snd (solveSudoku board) ! row ! col = Some v"
    if c: "\<exists>s. isCompletion board s" and e: "hasEmptyCell board"
  proof -
    from c s have solv: "isSolvable board" by simp
    then have "fst (solveSudoku board)" by (simp add: isSolvable_def copyBoard_id)
    then have comp: "isCompletion board (snd (solveSudoku board))"
      by (rule solveSudoku_correct(2)[OF g v])
    from h solv e obtain row col v where
      "fst (getNextHint board) = Some (row, col, v)" "row < 9" "col < 9"
      "board ! row ! col = None"
      "\<forall>r<9. \<forall>c<9. 9 * r + c < 9 * row + col \<longrightarrow> board ! r ! c \<noteq> None"
      "snd (solveSudoku (copyBoard board)) ! row ! col = Some v"
      by blast
    with comp show ?thesis
      unfolding copyBoard_id by (intro exI[of _ row] exI[of _ col] exI[of _ v] conjI)
  qed
qed

text \<open>A board whose filled cells conflict has no completion.\<close>

lemma conflict_has_no_completion:
  assumes "\<not> isBoardValid board"
  shows "\<not> isCompletion board s"
proof
  assume "isCompletion board s"
  then have n: "noClash s" and a: "agreesOn board s"
    by (simp_all add: isCompletion_iff fills_def)
  have "noClash board"
    unfolding noClash_def
  proof (intro allI impI notI, elim conjE)
    fix r c r' c' :: nat
    assume b: "r < 9" "c < 9" "r' < 9" "c' < 9" and u: "sameUnit r c r' c'"
      "(r', c') \<noteq> (r, c)" and f: "board ! r ! c \<noteq> None"
      and same: "board ! r' ! c' = board ! r ! c"
    from a b f same have "s ! r ! c = board ! r ! c" "s ! r' ! c' = board ! r ! c"
      unfolding agreesOn_def by simp_all
    with noClashD[OF n b u] f show False by simp
  qed
  with assms show False by (simp add: isBoardValid_iff)
qed

lemma conflictExample_no_completion: "\<not> (\<exists>s. isCompletion conflictExample s)"
  using conflict_has_no_completion[OF isBoardValid_conflictExample] by simp

lemma isGrid_conflictExample: "isGrid conflictExample"
  by code_simp

lemma getNextHint_conflictExample:
  "getNextHint conflictExample = (Some (8, 8, 8), conflictExample)"
  by code_simp

text \<open>The empty board has two completions, and \<open>hasUniqueSolution\<close> returns false on it.\<close>

lemma hasUniqueSolution_emptyBoard: "\<not> hasUniqueSolution emptyBoard"
proof -
  have g: "isGrid emptyBoard" by code_simp
  have v: "isBoardValid emptyBoard" by code_simp
  have d: "solvedExample \<noteq> solvedExample2"
    by (simp add: solvedExample_def solvedExample2_def)
  from hasUniqueSolution_correct[OF g v] isCompletion_emptyBoard d
  show ?thesis by metis
qed

section \<open>Claims\<close>

text \<open>
  C9. \<open>solveSudoku\<close> never changes a cell that was non-empty in its input, whether it
  succeeds or fails, and when it returns false the board is exactly the input board:
  every tentative placement has been undone.
\<close>

theorem solveSudoku_keeps_given_cells:
  "(\<forall>row col. board ! row ! col \<noteq> None \<longrightarrow>
      snd (solveSudoku board) ! row ! col = board ! row ! col) \<and>
   (\<not> fst (solveSudoku board) \<longrightarrow> snd (solveSudoku board) = board)"
proof (intro conjI allI impI)
  fix row col
  assume "board ! row ! col \<noteq> None"
  then show "snd (solveSudoku board) ! row ! col = board ! row ! col"
    using solve_frame(1)[of board "fst (solveSudoku board)" "snd (solveSudoku board)" row col]
    by simp
next
  assume "\<not> fst (solveSudoku board)"
  then show "snd (solveSudoku board) = board"
    using solve_fail(1)[of board "snd (solveSudoku board)"]
    by (cases "solveSudoku board") simp
qed

theorem solveSudoku_keeps_given_cells_witness:
  "blockedBoard ! 0 ! 0 \<noteq> None \<and>
   snd (solveSudoku blockedBoard) ! 0 ! 0 = blockedBoard ! 0 ! 0 \<and>
   \<not> fst (solveSudoku blockedBoard) \<and> snd (solveSudoku blockedBoard) = blockedBoard"
proof -
  have given: "blockedBoard ! 0 ! 0 \<noteq> None" by (simp add: blockedBoard_def)
  have failed: "\<not> fst (solveSudoku blockedBoard)" by (simp add: solveSudoku_blockedBoard)
  from solveSudoku_keeps_given_cells[of blockedBoard] given failed show ?thesis by blast
qed

text \<open>
  C1. The claim: \<open>solveSudoku\<close> returns true, leaving a full conflict-free solution,
  exactly when the board has a completion, and so returns false on every board whose
  filled cells already conflict. The search only tests each value it places against the
  cells present; it never tests the given cells against each other. On
  \<open>conflictExample\<close> it fills the last cell, returns true and leaves the two 2s of the
  first row in place.
\<close>

theorem solveSudoku_accepts_conflict:
  "isGrid conflictExample \<and> \<not> isBoardValid conflictExample \<and>
   fst (solveSudoku conflictExample) \<and>
   \<not> isBoardValid (snd (solveSudoku conflictExample)) \<and>
   snd (solveSudoku conflictExample) ! 0 ! 0 = Some 2 \<and>
   snd (solveSudoku conflictExample) ! 0 ! 1 = Some 2"
  unfolding solveSudoku_conflictExample by code_simp

theorem solveSudoku_accepts_conflict_witness:
  "fst (solveSudoku conflictExample) \<and> \<not> isBoardValid conflictExample"
  using solveSudoku_accepts_conflict by simp

text \<open>
  C8. The claim: on a solvable board with an empty cell \<open>getNextHint\<close> returns the first
  empty cell with the value of the solved copy, and on every unsolvable board it returns
  null. \<open>conflictExample\<close> is unsolvable: its first row holds two 2s, so it has no
  completion. \<open>getNextHint\<close> solves a copy with \<open>solveSudoku\<close>, which never tests the given
  cells against each other, and returns the hint 8 for the cell \<open>(8, 8)\<close>.
\<close>

theorem getNextHint_hints_conflict:
  "isGrid conflictExample \<and> \<not> isBoardValid conflictExample \<and>
   \<not> (\<exists>s. isCompletion conflictExample s) \<and>
   getNextHint conflictExample = (Some (8, 8, 8), conflictExample)"
  using isGrid_conflictExample isBoardValid_conflictExample conflictExample_no_completion
    getNextHint_conflictExample
  by (intro conjI)

theorem getNextHint_hints_conflict_witness:
  "fst (getNextHint conflictExample) = Some (8, 8, 8) \<and>
   \<not> isCompletion conflictExample solvedExample"
  using getNextHint_hints_conflict by simp

text \<open>
  C5. The claim: for every board \<open>hasUniqueSolution\<close> returns true exactly when the board
  has one completion and no other. On \<open>conflictExample\<close>, which has no completion (its
  first row holds two 2s), the search counts the one way to fill the last cell and
  returns true: like \<open>solveSudoku\<close>, it never tests the given cells against each other.
\<close>

theorem hasUniqueSolution_accepts_conflict:
  "isGrid conflictExample \<and> \<not> isBoardValid conflictExample \<and>
   hasUniqueSolution conflictExample \<and>
   \<not> (\<exists>s. isCompletion conflictExample s)"
  using isGrid_conflictExample isBoardValid_conflictExample hasUniqueSolution_conflictExample
    conflictExample_no_completion
  by (intro conjI)

theorem hasUniqueSolution_accepts_conflict_witness:
  "hasUniqueSolution conflictExample \<and> \<not> isCompletion conflictExample solvedExample2"
  using hasUniqueSolution_accepts_conflict by simp

text \<open>
  C2. Every board returned by \<open>generateCompleteSudoku\<close> satisfies \<open>isBoardSolved\<close>:
  whatever values in the range of \<^verbatim>\<open>Math.random()\<close> the shuffles draw, the call returns,
  and the board it returns has no empty cell and no conflict.
\<close>

theorem generateCompleteSudoku_isBoardSolved:
  assumes "goodRandoms rs"
  shows "\<exists>board rs'. generateCompleteSudoku rs = Some (board, rs') \<and> isBoardSolved board"
  using generateCompleteSudoku_outcome[OF assms] by metis

theorem generateCompleteSudoku_isBoardSolved_witness:
  "goodRandoms (sconst 0) \<and>
   (\<exists>board rs'. generateCompleteSudoku (sconst 0) = Some (board, rs') \<and> isBoardSolved board)"
proof -
  have g: "goodRandoms (sconst 0)" by (simp add: goodRandoms_sconst)
  from g generateCompleteSudoku_isBoardSolved[OF g] show ?thesis by simp
qed

text \<open>
  C10. Every puzzle returned by \<open>generateSudokuPuzzle\<close>, \<open>generateSymmetricPuzzle\<close> or
  \<open>generateBalancedPuzzle\<close> is a valid grid: 9x9, every filled cell a digit 1..9, and
  \<open>isBoardValid\<close> true. Each of the three returns such a puzzle for every difficulty
  and every random stream in the range of \<^verbatim>\<open>Math.random()\<close>.
\<close>

theorem generated_puzzles_valid:
  assumes "goodRandoms rs"
  shows "(\<exists>P rs'. generateSudokuPuzzle difficulty rs = Some (P, rs') \<and> isGrid P \<and> isBoardValid P) \<and>
         (\<exists>P rs'. generateSymmetricPuzzle difficulty rs = Some (P, rs') \<and> isGrid P \<and>
            isBoardValid P) \<and>
         (\<exists>P rs'. generateBalancedPuzzle difficulty rs = Some (P, rs') \<and> isGrid P \<and>
            isBoardValid P)"
proof (intro conjI)
  from generateSudokuPuzzle_cleared[OF assms, of difficulty]
  obtain G rs1 P rs2 where g: "isGrid G" "isBoardSolved G"
    and p: "generateSudokuPuzzle difficulty rs = Some (P, rs2)" and c: "clearedFrom G P"
    by blast
  from p clearedFrom_solved(1,2)[OF c g]
  show "\<exists>P rs'. generateSudokuPuzzle difficulty rs = Some (P, rs') \<and> isGrid P \<and> isBoardValid P"
    by simp
  from generateSymmetricPuzzle_cleared[OF assms, of difficulty]
  obtain G rs1 P rs2 where g: "isGrid G" "isBoardSolved G"
    and p: "generateSymmetricPuzzle difficulty rs = Some (P, rs2)" and c: "clearedFrom G P"
    by blast
  from p clearedFrom_solved(1,2)[OF c g]
  show "\<exists>P rs'. generateSymmetricPuzzle difficulty rs = Some (P, rs') \<and> isGrid P \<and>
      isBoardValid P"
    by simp
  from balancedLoop_valid[OF assms]
  show "\<exists>P rs'. generateBalancedPuzzle difficulty rs = Some (P, rs') \<and> isGrid P \<and>
      isBoardValid P"
    by (simp add: generateBalancedPuzzle_def)
qed

theorem generated_puzzles_valid_witness:
  "goodRandoms (sconst 0) \<and>
   (\<exists>P rs'. generateSudokuPuzzle HARD (sconst 0) = Some (P, rs') \<and> isGrid P \<and> isBoardValid P) \<and>
   (\<exists>P rs'. generateSymmetricPuzzle HARD (sconst 0) = Some (P, rs') \<and> isGrid P \<and>
      isBoardValid P) \<and>
   (\<exists>P rs'. generateBalancedPuzzle HARD (sconst 0) = Some (P, rs') \<and> isGrid P \<and>
      isBoardValid P)"
proof -
  have g: "goodRandoms (sconst 0)" by (simp add: goodRandoms_sconst)
  from g generated_puzzles_valid[OF g, of HARD] show ?thesis by simp
qed

text \<open>
  C3. Let \<open>G\<close> be the complete grid a generator builds. The puzzle that
  \<open>generateSudokuPuzzle\<close> or \<open>generateSymmetricPuzzle\<close> makes from it is solved by
  \<open>solveSudoku\<close>: the call returns true and leaves a board with \<open>isBoardValid\<close> true; and
  if the puzzle satisfies \<open>hasUniqueSolution\<close>, the board it leaves is \<open>G\<close>.
\<close>

theorem generated_puzzle_roundtrip:
  assumes "goodRandoms rs"
  shows "\<exists>G rs1. generateCompleteSudoku rs = Some (G, rs1) \<and>
     (\<exists>P rs2. generateSudokuPuzzle difficulty rs = Some (P, rs2) \<and>
        fst (solveSudoku P) \<and> isBoardValid (snd (solveSudoku P)) \<and>
        (hasUniqueSolution P \<longrightarrow> snd (solveSudoku P) = G)) \<and>
     (\<exists>P rs2. generateSymmetricPuzzle difficulty rs = Some (P, rs2) \<and>
        fst (solveSudoku P) \<and> isBoardValid (snd (solveSudoku P)) \<and>
        (hasUniqueSolution P \<longrightarrow> snd (solveSudoku P) = G))"
proof (rule generateSudokuPuzzle_cleared[OF assms, of difficulty])
  fix G rs1 P rs2
  assume g: "generateCompleteSudoku rs = Some (G, rs1)" "isGrid G" "isBoardSolved G"
    and p: "generateSudokuPuzzle difficulty rs = Some (P, rs2)" and c: "clearedFrom G P"
  show ?thesis
  proof (rule generateSymmetricPuzzle_cleared[OF assms, of difficulty])
    fix G' rs1' Q rs3
    assume g': "generateCompleteSudoku rs = Some (G', rs1')"
      and q: "generateSymmetricPuzzle difficulty rs = Some (Q, rs3)"
      and d': "clearedFrom G' Q"
    from g' g(1) d' have d: "clearedFrom G Q" by simp
    note r1 = cleared_roundtrip[OF c g(2,3)] and r2 = cleared_roundtrip[OF d g(2,3)]
    show ?thesis
    proof (rule exI[of _ G], rule exI[of _ rs1], intro conjI)
      show "generateCompleteSudoku rs = Some (G, rs1)" by (rule g(1))
      show "\<exists>P rs2. generateSudokuPuzzle difficulty rs = Some (P, rs2) \<and>
          fst (solveSudoku P) \<and> isBoardValid (snd (solveSudoku P)) \<and>
          (hasUniqueSolution P \<longrightarrow> snd (solveSudoku P) = G)"
        by (rule exI[of _ P], rule exI[of _ rs2]) (intro conjI impI p r1)
      show "\<exists>P rs2. generateSymmetricPuzzle difficulty rs = Some (P, rs2) \<and>
          fst (solveSudoku P) \<and> isBoardValid (snd (solveSudoku P)) \<and>
          (hasUniqueSolution P \<longrightarrow> snd (solveSudoku P) = G)"
        by (rule exI[of _ Q], rule exI[of _ rs3]) (intro conjI impI q r2)
    qed
  qed
qed

theorem generated_puzzle_roundtrip_witness:
  "goodRandoms (sconst 0) \<and>
   (\<exists>G rs1. generateCompleteSudoku (sconst 0) = Some (G, rs1) \<and>
     (\<exists>P rs2. generateSudokuPuzzle EASY (sconst 0) = Some (P, rs2) \<and>
        fst (solveSudoku P) \<and> isBoardValid (snd (solveSudoku P)) \<and>
        (hasUniqueSolution P \<longrightarrow> snd (solveSudoku P) = G)) \<and>
     (\<exists>P rs2. generateSymmetricPuzzle EASY (sconst 0) = Some (P, rs2) \<and>
        fst (solveSudoku P) \<and> isBoardValid (snd (solveSudoku P)) \<and>
        (hasUniqueSolution P \<longrightarrow> snd (solveSudoku P) = G)))"
proof -
  have g: "goodRandoms (sconst 0)" by (simp add: goodRandoms_sconst)
  from g generated_puzzle_roundtrip[OF g, of EASY] show ?thesis by simp
qed

text \<open>
  C7. In every puzzle returned by \<open>generateSymmetricPuzzle\<close> the set of empty cells is
  invariant under the half turn of the grid: cell \<open>(r, c)\<close> is empty if and only if cell
  \<open>(8 - r, 8 - c)\<close> is.
\<close>

theorem generateSymmetricPuzzle_half_turn:
  assumes "goodRandoms rs"
  shows "\<exists>P rs'. generateSymmetricPuzzle difficulty rs = Some (P, rs') \<and>
     (\<forall>r<9. \<forall>c<9. P ! r ! c = None \<longleftrightarrow> P ! (8 - r) ! (8 - c) = None)"
proof (rule generateSymmetricPuzzle_outcome[OF assms, of difficulty])
  fix G rs1
  assume g: "isGrid G" "isBoardSolved G" "goodRandoms rs1"
    and p: "generateSymmetricPuzzle difficulty rs =
       Some (fst (fst (removeSymmetric G difficulty rs1)), snd (removeSymmetric G difficulty rs1))"
  from g(1,2) have "wfBoard G" "allFilled G" by (simp_all add: isGrid_iff isBoardSolved_iff)
  from mirrored_removeSymmetric[OF this g(3), of difficulty]
  have "\<forall>r<9. \<forall>c<9. fst (fst (removeSymmetric G difficulty rs1)) ! r ! c = None \<longleftrightarrow>
      fst (fst (removeSymmetric G difficulty rs1)) ! (8 - r) ! (8 - c) = None"
    unfolding mirrored_def ..
  then show ?thesis
    by (intro exI[of _ "fst (fst (removeSymmetric G difficulty rs1))"]
        exI[of _ "snd (removeSymmetric G difficulty rs1)"] conjI p)
qed

theorem generateSymmetricPuzzle_half_turn_witness:
  "goodRandoms (sconst 0) \<and>
   (\<exists>P rs'. generateSymmetricPuzzle EXPERT (sconst 0) = Some (P, rs') \<and>
     (\<forall>r<9. \<forall>c<9. P ! r ! c = None \<longleftrightarrow> P ! (8 - r) ! (8 - c) = None))"
proof -
  have g: "goodRandoms (sconst 0)" by (simp add: goodRandoms_sconst)
  from generateSymmetricPuzzle_half_turn[OF g, of EXPERT] g show ?thesis by (intro conjI)
qed

text \<open>
  C6. The claim: in every puzzle returned by \<open>generateSymmetricPuzzle\<close> every box keeps at
  least the per-box minimum of clues (no box loses more than 9 minus that minimum).
  The loop tests both boxes of a pair against the cap before it removes the pair, but
  a cell of the centre box has its mirror image in the centre box too, so that box is
  counted twice for one test. At difficulty \<open>MEDIUM\<close> (minimum 2, cap 7) on the random
  stream \<open>centreStream\<close> the centre box goes from 6 removed cells to 8 and keeps one clue.
\<close>

theorem generateSymmetricPuzzle_centre_box:
  "\<exists>P rs'. generateSymmetricPuzzle MEDIUM centreStream = Some (P, rs') \<and>
     countFilledInBox P 1 1 = 1 \<and> fst (getBoxConstraints MEDIUM) = 2"
proof (rule generateCompleteSudoku_outcome[OF goodRandoms_centreStream])
  fix G rs1 n
  assume g: "generateCompleteSudoku centreStream = Some (G, rs1)" "isGrid G" "isBoardSolved G"
    and r: "rs1 = sdrop (8 * n) centreStream"
  from r have rs1: "rs1 = centreStream" by (simp only: centreStream_sdrop)
  let ?P = "fst (symmetricLoop 50 7 centreOrder (G, replicate 3 (replicate 3 0), 0))"
  have gen: "generateSymmetricPuzzle MEDIUM centreStream =
      Some (?P, snd (removeSymmetric G MEDIUM centreStream))"
    unfolding generateSymmetricPuzzle_def g(1) rs1 option.case prod.case split_beta
      fst_conv snd_conv removeSymmetric_centreStream ..
  from g(2,3) have full: "wfBoard G" "allFilled G"
    by (simp_all add: isGrid_iff isBoardSolved_iff)
  from isCompletion_emptyBoard(1) have "wfBoard solvedExample" "allFilled solvedExample"
    by (simp_all add: isCompletion_iff fills_def)
  from sameMask_full[OF full(1) this(1) full(2) this(2)]
  have "sameMask ?P
      (fst (symmetricLoop 50 7 centreOrder (solvedExample, replicate 3 (replicate 3 0), 0)))"
    by (rule sameMask_symmetricLoop[THEN conjunct1])
  from countFilledInBox_sameMask[OF this, of 1 1] have box: "countFilledInBox ?P 1 1 = 1"
    by (simp only: centre_box_solvedExample)
  have "fst (getBoxConstraints MEDIUM) = 2" by simp
  with gen box show ?thesis by (intro exI conjI)
qed

text \<open>
  C4. For every difficulty level the puzzle returned by \<open>generateSudokuPuzzle\<close> has a
  clue count (number of non-empty cells) in the range of the level, and each of its nine
  boxes has a clue count in the per-box range of the level: Easy 36 to 41 and 3 to 6 in
  each box, Medium 27 to 32 and 2 to 5, Hard 22 to 27 and 1 to 4, Expert 17 to 22 and 0
  to 3. The call returns such a puzzle on every random stream in the range of
  \<^verbatim>\<open>Math.random()\<close>.
\<close>

theorem generateSudokuPuzzle_clue_counts:
  assumes "goodRandoms rs"
  shows "\<exists>P rs'. generateSudokuPuzzle difficulty rs = Some (P, rs') \<and>
     (case difficulty of
        EASY \<Rightarrow> clueCount P \<in> {36..41} \<and>
          (\<forall>boxRow<3. \<forall>boxCol<3. countFilledInBox P boxRow boxCol \<in> {3..6})
      | MEDIUM \<Rightarrow> clueCount P \<in> {27..32} \<and>
          (\<forall>boxRow<3. \<forall>boxCol<3. countFilledInBox P boxRow boxCol \<in> {2..5})
      | HARD \<Rightarrow> clueCount P \<in> {22..27} \<and>
          (\<forall>boxRow<3. \<forall>boxCol<3. countFilledInBox P boxRow boxCol \<in> {1..4})
      | EXPERT \<Rightarrow> clueCount P \<in> {17..22} \<and>
          (\<forall>boxRow<3. \<forall>boxCol<3. countFilledInBox P boxRow boxCol \<in> {0..3}))"
proof (rule generateSudokuPuzzle_outcome[OF assms, of difficulty])
  fix G rs1
  assume g: "isGrid G" "isBoardSolved G" "goodRandoms rs1"
    and p: "generateSudokuPuzzle difficulty rs = Some (removeCellsImproved G difficulty rs1)"
  let ?P = "fst (removeCellsImproved G difficulty rs1)"
  from g(1,2) have "wfBoard G" "allFilled G" by (simp_all add: isGrid_iff isBoardSolved_iff)
  note c = removeCellsImproved_counts[OF this g(3), of difficulty]
  have "case difficulty of
        EASY \<Rightarrow> clueCount ?P \<in> {36..41} \<and>
          (\<forall>boxRow<3. \<forall>boxCol<3. countFilledInBox ?P boxRow boxCol \<in> {3..6})
      | MEDIUM \<Rightarrow> clueCount ?P \<in> {27..32} \<and>
          (\<forall>boxRow<3. \<forall>boxCol<3. countFilledInBox ?P boxRow boxCol \<in> {2..5})
      | HARD \<Rightarrow> clueCount ?P \<in> {22..27} \<and>
          (\<forall>boxRow<3. \<forall>boxCol<3. countFilledInBox ?P boxRow boxCol \<in> {1..4})
      | EXPERT \<Rightarrow> clueCount ?P \<in> {17..22} \<and>
          (\<forall>boxRow<3. \<forall>boxCol<3. countFilledInBox ?P boxRow boxCol \<in> {0..3})"
    using c by (cases difficulty) simp_all
  with p show ?thesis
    by (intro exI[of _ ?P] exI[of _ "snd (removeCellsImproved G difficulty rs1)"]) simp
qed

theorem generateSudokuPuzzle_clue_counts_witness:
  "goodRandoms (sconst 0) \<and>
   (\<exists>P rs'. generateSudokuPuzzle HARD (sconst 0) = Some (P, rs') \<and>
      clueCount P \<in> {22..27} \<and>
      (\<forall>boxRow<3. \<forall>boxCol<3. countFilledInBox P boxRow boxCol \<in> {1..4}))"
proof -
  have g: "goodRandoms (sconst 0)" by (simp add: goodRandoms_sconst)
  from g generateSudokuPuzzle_clue_counts[OF g, of HARD] show ?thesis by simp
qed

end
